theory Spec2Isabelle
  imports Complex_Main "HOL-Library.Sublist" "HOL-Library.Multiset"
begin

section \<open>Configuration (config.py)\<close>

text \<open>
  The class \<open>Config\<close> holds the settings read from the environment. Only the attributes
  the pipeline code below reads are kept. \<open>POSTS_PER_DAY\<close> is an unbounded Python
  integer: \<open>int(os.getenv(...))\<close> accepts zero and negative values.
\<close>

record config =
  APIFY_API_TOKEN :: string
  GEMINI_API_KEY :: string
  HIGGSFIELD_API_KEY :: string
  ELEVENLABS_API_KEY :: string
  BLOTATO_API_KEY :: string
  SOUL_ID :: string
  POSTS_PER_DAY :: int
  PLATFORMS :: "string list"
  OUTPUTS_DIR :: string
  FINAL_DIR :: string

text \<open>Exceptions of the Python code that the model distinguishes.\<close>

datatype error =
    ValueError string
  | ZeroDivisionError
  | OverflowError
  | SameFileError
  | FileNotFoundError
  | FileExistsError
  | OSError
  | RequestException

section \<open>Dates (datetime, timedelta)\<close>

text \<open>
  A UTC \<open>datetime\<close>: the calendar day as its ordinal number, and the time of day.
  Adding \<open>timedelta(days=n)\<close> moves the ordinal and keeps the time of day;
  \<open>replace(hour=h, minute=0, second=0, microsecond=0)\<close> keeps the day. The string that
  \<open>isoformat()\<close> produces is one-to-one with the value, so the value stands for it.
\<close>

record datetime =
  dt_day :: int
  dt_hour :: nat
  dt_minute :: nat
  dt_second :: nat
  dt_microsecond :: nat

definition add_days :: "datetime \<Rightarrow> int \<Rightarrow> datetime" where
  "add_days dt n = dt\<lparr>dt_day := dt_day dt + n\<rparr>"

definition replace_time :: "datetime \<Rightarrow> nat \<Rightarrow> datetime" where
  "replace_time dt h = dt\<lparr>dt_hour := h, dt_minute := 0, dt_second := 0, dt_microsecond := 0\<rparr>"

section \<open>Scheduling (pipeline/scheduler.py)\<close>

text \<open>
  What the Blotato service and the file system answer is not in the program. It is a
  parameter: for the loop index \<open>i\<close> of \<open>schedule_batch\<close>, whether the path exists, and
  what each HTTP request returns, either an exception (\<open>None\<close>) or the string fields of the
  JSON body.
\<close>

type_synonym json = "string \<rightharpoonup> string"

record sched_world =
  path_exists :: "nat \<Rightarrow> string \<Rightarrow> bool"
  upload_response :: "nat \<Rightarrow> string \<Rightarrow> json option"
  post_response :: "nat \<Rightarrow> string \<Rightarrow> string \<Rightarrow> string list \<Rightarrow> datetime option \<Rightarrow> json option"

text \<open>\<open>data.get(k1, data.get(k2, ""))\<close>\<close>

definition get2 :: "json \<Rightarrow> string \<Rightarrow> string \<Rightarrow> string" where
  "get2 data k1 k2 =
     (case data k1 of Some v \<Rightarrow> v
      | None \<Rightarrow> (case data k2 of Some v \<Rightarrow> v | None \<Rightarrow> []))"


definition upload_media :: "string \<Rightarrow> sched_world \<Rightarrow> nat \<Rightarrow> string \<Rightarrow> string option" where
  "upload_media api_key w i file_path =
     (if api_key = [] then None
      else case upload_response w i file_path of
             None \<Rightarrow> None
           | Some data \<Rightarrow>
               (let media_id = get2 data ''media_id'' ''id''
                in if media_id \<noteq> [] then Some media_id else None))"

definition schedule_post ::
  "string \<Rightarrow> sched_world \<Rightarrow> nat \<Rightarrow> string \<Rightarrow> string \<Rightarrow> string list \<Rightarrow> datetime option
     \<Rightarrow> string option" where
  "schedule_post api_key w i media_id caption platforms schedule_time =
     (if api_key = [] then None
      else case post_response w i media_id caption platforms schedule_time of
             None \<Rightarrow> None
           | Some data \<Rightarrow>
               (let submission_id = get2 data ''post_submission_id'' ''id''
                in if submission_id \<noteq> [] then Some submission_id else None))"

text \<open>An entry of the batch: the dictionary with the keys \<open>video_path\<close> and \<open>caption\<close>.\<close>

record batch_item =
  bi_video_path :: string
  bi_caption :: string

text \<open>
  The schedule time of the item at index \<open>i\<close> (lines 165 to 171 of the loop body).
  Python's \<open>//\<close> and \<open>%\<close> on integers are floor division and its remainder, as \<open>div\<close> and
  \<open>mod\<close> on \<open>int\<close>; the division by zero is raised by the caller below.
\<close>

definition hours :: "nat list" where
  "hours = [9, 13, 18]"

definition schedule_dt :: "datetime \<Rightarrow> int \<Rightarrow> nat \<Rightarrow> datetime" where
  "schedule_dt now posts_per_day i =
     (let day_offset = int i div posts_per_day;
          slot_in_day = int i mod posts_per_day;
          hour = hours ! nat (slot_in_day mod int (length hours))
      in replace_time (add_days now (day_offset + 1)) hour)"

text \<open>
  One request to schedule a post, as \<open>schedule_batch\<close> issues it: the index of the item in
  the batch, the media id, the caption, the platforms and the schedule time.
\<close>

record post_call =
  pc_index :: nat
  pc_media_id :: string
  pc_caption :: string
  pc_platforms :: "string list"
  pc_time :: datetime

text \<open>
  The loop of \<open>schedule_batch\<close>, from index \<open>i\<close> on, with the submission ids and the
  requests issued so far. An item whose path is empty or missing is skipped before any
  arithmetic; an item whose upload fails is skipped after it.
\<close>

fun schedule_batch_loop ::
  "string \<Rightarrow> int \<Rightarrow> sched_world \<Rightarrow> datetime \<Rightarrow> string list \<Rightarrow> nat \<Rightarrow> string list
     \<Rightarrow> post_call list \<Rightarrow> batch_item list \<Rightarrow> error + (string list \<times> post_call list)" where
  "schedule_batch_loop api_key ppd w now platforms i subs calls [] = Inr (subs, calls)"
| "schedule_batch_loop api_key ppd w now platforms i subs calls (item # rest) =
     (if bi_video_path item = [] \<or> \<not> path_exists w i (bi_video_path item)
      then schedule_batch_loop api_key ppd w now platforms (Suc i) subs calls rest
      else if ppd = 0 then Inl ZeroDivisionError
      else
        let schedule_time = schedule_dt now ppd i in
        case upload_media api_key w i (bi_video_path item) of
          None \<Rightarrow> schedule_batch_loop api_key ppd w now platforms (Suc i) subs calls rest
        | Some media_id \<Rightarrow>
            (let call = \<lparr>pc_index = i, pc_media_id = media_id, pc_caption = bi_caption item,
                          pc_platforms = platforms, pc_time = schedule_time\<rparr>
             in case schedule_post api_key w i media_id (bi_caption item) platforms
                       (Some schedule_time) of
                  None \<Rightarrow>
                    schedule_batch_loop api_key ppd w now platforms (Suc i) subs
                      (calls @ [call]) rest
                | Some sub_id \<Rightarrow>
                    schedule_batch_loop api_key ppd w now platforms (Suc i) (subs @ [sub_id])
                      (calls @ [call]) rest))"

definition schedule_batch ::
  "config \<Rightarrow> sched_world \<Rightarrow> datetime \<Rightarrow> batch_item list \<Rightarrow> string list
     \<Rightarrow> error + (string list \<times> post_call list)" where
  "schedule_batch cfg w now videos_with_captions platforms =
     (if BLOTATO_API_KEY cfg = [] then Inr ([], [])
      else schedule_batch_loop (BLOTATO_API_KEY cfg) (POSTS_PER_DAY cfg) w now platforms 0 [] []
             videos_with_captions)"

section \<open>Scraping and ranking (pipeline/scraper.py)\<close>

text \<open>
  A scraped item is the dictionary the three scrapers build. The counters come from the
  remote JSON and may be missing or null, hence \<open>int option\<close>.
\<close>

record scraped_item =
  url :: string
  description :: string
  likes :: "int option"
  shares :: "int option"
  views :: "int option"
  author :: string
  platform :: string

text \<open>\<open>ApifyScraper.__init__\<close> raises when the token is empty.\<close>

definition ApifyScraper_init :: "config \<Rightarrow> error + string" where
  "ApifyScraper_init cfg =
     (if APIFY_API_TOKEN cfg = [] then Inl (ValueError ''APIFY_API_TOKEN is not set in .env'')
      else Inr (APIFY_API_TOKEN cfg))"

text \<open>
  \<open>item.get(k, d) or d\<close>: the default replaces a missing, a null and a zero counter.
\<close>

definition get_or :: "int option \<Rightarrow> int \<Rightarrow> int" where
  "get_or v d = (case v of None \<Rightarrow> d | Some n \<Rightarrow> if n = 0 then d else n)"

text \<open>
  The score is a Python float, the result of \<open>/\<close> on two integers. That division raises
  \<open>OverflowError\<close> when the quotient is too large for a float, and it rounds. The
  division is a parameter \<open>truediv\<close>: it returns an exception or a value of any linearly
  ordered type, so that nothing is assumed about where it raises or how it rounds.
\<close>

definition engagement_score ::
  "(int \<Rightarrow> int \<Rightarrow> error + 'k) \<Rightarrow> scraped_item \<Rightarrow> error + 'k" where
  "engagement_score truediv item =
     (let likes = get_or (likes item) 0;
          shares = get_or (shares item) 0;
          views = get_or (views item) 1
      in truediv (likes + shares) (max views 1))"

text \<open>
  \<open>list.sort(key=f, reverse=True)\<close> first computes the key of every element, in list
  order; an exception of the key function ends the sort and escapes it. Then the list,
  with its keys, is reversed, sorted by a stable sort in ascending order of the key, and
  reversed again. \<^const>\<open>sort_key\<close> is a stable insertion sort.
\<close>

fun keys_of :: "('a \<Rightarrow> error + 'k) \<Rightarrow> 'a list \<Rightarrow> error + 'k list" where
  "keys_of key [] = Inr []"
| "keys_of key (x # xs) =
     (case key x of
        Inl e \<Rightarrow> Inl e
      | Inr k \<Rightarrow> (case keys_of key xs of Inl e \<Rightarrow> Inl e | Inr ks \<Rightarrow> Inr (k # ks)))"

definition py_sort ::
  "('a \<Rightarrow> error + 'k::linorder) \<Rightarrow> bool \<Rightarrow> 'a list \<Rightarrow> error + 'a list" where
  "py_sort key reverse xs =
     (case keys_of key xs of
        Inl e \<Rightarrow> Inl e
      | Inr ks \<Rightarrow>
          (let keyed = zip ks xs
           in Inr (map snd (if reverse then rev (sort_key fst (rev keyed))
                            else sort_key fst keyed))))"

text \<open>The slice \<open>xs[:count]\<close>; a negative count is taken from the end. The name \<open>count\<close>
  is taken by the multiset library, so the parameter is \<open>cnt\<close>.\<close>

definition slice_to :: "'a list \<Rightarrow> int \<Rightarrow> 'a list" where
  "slice_to xs cnt =
     (if 0 \<le> cnt then take (nat cnt) xs else take (nat (int (length xs) + cnt)) xs)"

text \<open>
  What the three \<open>scrape_viral_*\<close> calls return is a parameter: the list of items, or the
  exception that escapes the call (they catch the failure of the actor run themselves and
  then return the empty list). So is the exception that saving the top list may raise.
\<close>

record scrape_world =
  scrape_viral_tiktok :: "error + scraped_item list"
  scrape_viral_instagram :: "error + scraped_item list"
  scrape_viral_youtube :: "error + scraped_item list"
  save_top_error :: "error option"

definition get_top_content ::
  "(int \<Rightarrow> int \<Rightarrow> error + 'k::linorder) \<Rightarrow> scrape_world \<Rightarrow> int
     \<Rightarrow> error + scraped_item list" where
  "get_top_content truediv w cnt =
     (case scrape_viral_tiktok w of
        Inl e \<Rightarrow> Inl e
      | Inr t \<Rightarrow>
          (case scrape_viral_instagram w of
             Inl e \<Rightarrow> Inl e
           | Inr g \<Rightarrow>
               (case scrape_viral_youtube w of
                  Inl e \<Rightarrow> Inl e
                | Inr y \<Rightarrow>
                    (let all_content = t @ g @ y
                     in if all_content = [] then Inr []
                        else
                          (case py_sort (engagement_score truediv) True all_content of
                             Inl e \<Rightarrow> Inl e
                           | Inr ranked \<Rightarrow>
                               (let top_items = slice_to ranked cnt
                                in (case save_top_error w of
                                      Some e \<Rightarrow> Inl e
                                    | None \<Rightarrow> Inr top_items)))))))"

section \<open>Caption wrapping (pipeline/video_editor.py, add_captions)\<close>

text \<open>
  A Python string is a sequence of code points, and \<open>len\<close> counts them. \<open>str.split()\<close>
  and \<open>str.strip()\<close> without argument use the whitespace of \<open>str.isspace\<close>.
\<close>

type_synonym pystr = "nat list"

definition isspace :: "nat \<Rightarrow> bool" where
  "isspace c =
     ((9 \<le> c \<and> c \<le> 13) \<or> (28 \<le> c \<and> c \<le> 32) \<or> c = 133 \<or> c = 160 \<or> c = 5760 \<or>
      (8192 \<le> c \<and> c \<le> 8202) \<or> c = 8232 \<or> c = 8233 \<or> c = 8239 \<or> c = 8287 \<or> c = 12288)"

text \<open>\<open>s.split()\<close>: the maximal runs of characters that are not whitespace, in order.\<close>

fun split_from :: "pystr \<Rightarrow> pystr \<Rightarrow> pystr list" where
  "split_from cur [] = (if cur = [] then [] else [cur])"
| "split_from cur (c # cs) =
     (if isspace c then (if cur = [] then split_from [] cs else cur # split_from [] cs)
      else split_from (cur @ [c]) cs)"

definition split :: "pystr \<Rightarrow> pystr list" where
  "split s = split_from [] s"

definition strip :: "pystr \<Rightarrow> pystr" where
  "strip s = rev (dropWhile isspace (rev (dropWhile isspace s)))"

text \<open>The loop over the words (lines 126 to 131), with \<open>lines\<close> and \<open>current_line\<close>.\<close>

fun wrap_loop :: "pystr list \<Rightarrow> pystr \<Rightarrow> pystr list \<Rightarrow> pystr list \<times> pystr" where
  "wrap_loop lines current_line [] = (lines, current_line)"
| "wrap_loop lines current_line (word # words) =
     (if length current_line + length word + 1 > 40
      then wrap_loop (lines @ [current_line]) word words
      else wrap_loop lines (strip (current_line @ [32] @ word)) words)"

text \<open>The list \<open>lines\<close> that \<open>add_captions\<close> joins into the text it draws (lines 123 to 133).\<close>

definition caption_lines :: "pystr \<Rightarrow> pystr list" where
  "caption_lines caption_text =
     (case wrap_loop [] [] (split caption_text) of
        (lines, current_line) \<Rightarrow> if current_line \<noteq> [] then lines @ [current_line] else lines)"

section \<open>The content queue (database.py)\<close>

text \<open>
  A row of \<open>content_queue\<close>. The four path and id columns are \<open>NULL\<close> until an update
  sets them. The timestamps are left out: no code below reads them. The database is the
  table as a map from row id to row, the counter behind \<open>AUTOINCREMENT\<close> (sqlite keeps it
  at least as large as every id in use), and the table \<open>post_log\<close>. The field
  \<open>status_log\<close> is not a table: it records, for every update that hit a row, the row id,
  the status before and the status after, so that transitions can be stated. The calls of
  sqlite are taken to succeed; a failing database is not modelled.
\<close>

record content =
  source_url :: string
  topic :: string
  script :: string
  caption :: string
  status :: string
  video_path :: "string option"
  audio_path :: "string option"
  final_video_path :: "string option"
  post_submission_id :: "string option"

record post_log_row =
  pl_content_id :: int
  pl_platform :: string
  pl_post_id :: string
  pl_status :: string

record database =
  rows :: "int \<rightharpoonup> content"
  last_id :: int
  post_log :: "post_log_row list"
  status_log :: "(int \<times> string \<times> string) list"

definition add_content ::
  "database \<Rightarrow> string \<Rightarrow> string \<Rightarrow> string \<Rightarrow> string \<Rightarrow> int \<times> database" where
  "add_content db src tp scr cap =
     (let row_id = last_id db + 1
      in (row_id,
          db\<lparr>rows := (rows db)(row_id \<mapsto>
                 \<lparr>source_url = src, topic = tp, script = scr, caption = cap,
                  status = ''pending'', video_path = None, audio_path = None,
                  final_video_path = None, post_submission_id = None\<rparr>),
             last_id := row_id\<rparr>))"

text \<open>The keyword arguments \<open>**fields\<close> of \<open>update_content_status\<close>, in call order.\<close>

datatype field = Video_path | Audio_path | Final_video_path | Post_submission_id

fun set_field :: "field \<Rightarrow> string \<Rightarrow> content \<Rightarrow> content" where
  "set_field Video_path v c = c\<lparr>video_path := Some v\<rparr>"
| "set_field Audio_path v c = c\<lparr>audio_path := Some v\<rparr>"
| "set_field Final_video_path v c = c\<lparr>final_video_path := Some v\<rparr>"
| "set_field Post_submission_id v c = c\<lparr>post_submission_id := Some v\<rparr>"

fun set_fields :: "(field \<times> string) list \<Rightarrow> content \<Rightarrow> content" where
  "set_fields [] c = c"
| "set_fields ((k, v) # kwargs) c = set_fields kwargs (set_field k v c)"

text \<open>\<open>UPDATE content_queue SET status = ?, ... WHERE id = ?\<close>: no row, no change.\<close>

definition update_content_status ::
  "database \<Rightarrow> int \<Rightarrow> string \<Rightarrow> (field \<times> string) list \<Rightarrow> database" where
  "update_content_status db content_id st kwargs =
     (case rows db content_id of
        None \<Rightarrow> db
      | Some c \<Rightarrow>
          db\<lparr>rows := (rows db)(content_id \<mapsto> set_fields kwargs (c\<lparr>status := st\<rparr>)),
             status_log := status_log db @ [(content_id, status c, st)]\<rparr>)"

definition get_content :: "database \<Rightarrow> int \<Rightarrow> content option" where
  "get_content db content_id = rows db content_id"

definition log_post :: "database \<Rightarrow> int \<Rightarrow> string \<Rightarrow> string \<Rightarrow> string \<Rightarrow> database" where
  "log_post db content_id plat post_id st =
     db\<lparr>post_log := post_log db @
          [\<lparr>pl_content_id = content_id, pl_platform = plat, pl_post_id = post_id,
            pl_status = st\<rparr>]\<rparr>"

text \<open>Python's truth value of an optional string: \<open>None\<close> and \<open>""\<close> are false.\<close>

definition truthy :: "string option \<Rightarrow> bool" where
  "truthy v = (case v of None \<Rightarrow> False | Some s \<Rightarrow> s \<noteq> [])"

section \<open>The orchestrator (pipeline/orchestrator.py)\<close>

subsection \<open>Phase 1: discovery\<close>

text \<open>\<open>GeminiAnalyzer.__init__\<close> raises when the key is empty.\<close>

definition GeminiAnalyzer_init :: "config \<Rightarrow> error + string" where
  "GeminiAnalyzer_init cfg =
     (if GEMINI_API_KEY cfg = [] then Inl (ValueError ''GEMINI_API_KEY is not set in .env'')
      else Inr (GEMINI_API_KEY cfg))"

text \<open>
  An analysis, reduced to the four strings that \<open>run_discovery\<close> reads from it and passes
  to \<open>add_content\<close>. What \<open>analyze_content\<close> returns for the scraped items is a parameter.
  The handlers around the scraper and the analyzer turn an exception into the empty list;
  the handler around \<open>add_content\<close> has nothing to catch here, since the database calls
  succeed.
\<close>

record analysis =
  a_source_url :: string
  a_topic :: string
  a_script :: string
  a_caption :: string

record discovery_world =
  scraping :: scrape_world
  analyze_content :: "scraped_item list \<Rightarrow> error + analysis list"

fun queue_items :: "database \<Rightarrow> int list \<Rightarrow> analysis list \<Rightarrow> int list \<times> database" where
  "queue_items db queue_ids [] = (queue_ids, db)"
| "queue_items db queue_ids (item # rest) =
     (case add_content db (a_source_url item) (a_topic item) (a_script item) (a_caption item) of
        (row_id, db') \<Rightarrow> queue_items db' (queue_ids @ [row_id]) rest)"

definition run_discovery ::
  "(int \<Rightarrow> int \<Rightarrow> error + 'k::linorder) \<Rightarrow> config \<Rightarrow> discovery_world \<Rightarrow> database \<Rightarrow> int
     \<Rightarrow> int list \<times> database" where
  "run_discovery truediv cfg w db cnt =
     (let raw_content =
            (case ApifyScraper_init cfg of
               Inl e \<Rightarrow> []
             | Inr token \<Rightarrow>
                 (case get_top_content truediv (scraping w) cnt of
                    Inl e \<Rightarrow> []
                  | Inr top_items \<Rightarrow> top_items))
      in if raw_content = [] then ([], db)
         else
           (let analyses =
                  (case GeminiAnalyzer_init cfg of
                     Inl e \<Rightarrow> []
                   | Inr key \<Rightarrow>
                       (case analyze_content w raw_content of
                          Inl e \<Rightarrow> []
                        | Inr found \<Rightarrow> found))
            in if analyses = [] then ([], db) else queue_items db [] analyses))"

subsection \<open>Phases 2 to 4: generation\<close>



text \<open>
  The parameters of the generation loop, for the \<open>k\<close>-th id of the list: the parsed script
  and the hook (lines 114 to 120) or the exception they raise; what the video service
  yields for a prompt; what the voice yields for a script, or the exception escaping it;
  what \<open>compose_final\<close> returns, or the exception escaping it (its own model, on the file
  system, is further below).
\<close>

record gen_world =
  script_hook :: "nat \<Rightarrow> content \<Rightarrow> error + (json \<times> string)"
  generate_video_result :: "nat \<Rightarrow> string \<Rightarrow> string \<Rightarrow> string option"
  synthesize_result :: "nat \<Rightarrow> json \<Rightarrow> error + string option"
  compose_final_result :: "nat \<Rightarrow> string \<Rightarrow> string \<Rightarrow> string \<Rightarrow> string \<Rightarrow> error + string option"

definition generate_video :: "string \<Rightarrow> gen_world \<Rightarrow> nat \<Rightarrow> string \<Rightarrow> string \<Rightarrow> string option" where
  "generate_video api_key w k prompt soul_id =
     (if api_key = [] then None else generate_video_result w k prompt soul_id)"

definition synthesize_script :: "string \<Rightarrow> gen_world \<Rightarrow> nat \<Rightarrow> json \<Rightarrow> error + string option" where
  "synthesize_script api_key w k script_dict =
     (case synthesize_result w k script_dict of
        Inl e \<Rightarrow> Inl e
      | Inr r \<Rightarrow> Inr (if api_key = [] then None else r))"

text \<open>A call of \<open>generate_video\<close>: the prompt and the Soul ID.\<close>

record video_call =
  vc_prompt :: string
  vc_soul_id :: string

text \<open>
  The body of the loop for one id whose row \<open>content\<close> exists (lines 109 to 165): the
  success flag, the database after it and the calls of \<open>generate_video\<close> it made.
\<close>

definition generate_item ::
  "config \<Rightarrow> gen_world \<Rightarrow> nat \<Rightarrow> database \<Rightarrow> int \<Rightarrow> content
     \<Rightarrow> bool \<times> database \<times> video_call list" where
  "generate_item cfg w k db qid content =
     (let db1 = update_content_status db qid ''generating'' []
      in case script_hook w k content of
           Inl e \<Rightarrow> (False, update_content_status db1 qid ''failed'' [], [])
         | Inr (script_dict, hook) \<Rightarrow>
             (let calls = [\<lparr>vc_prompt = hook, vc_soul_id = SOUL_ID cfg\<rparr>];
                  video = generate_video (HIGGSFIELD_API_KEY cfg) w k hook (SOUL_ID cfg)
              in if \<not> truthy video
                 then (False, update_content_status db1 qid ''failed'' [], calls)
                 else
                   (case synthesize_script (ELEVENLABS_API_KEY cfg) w k script_dict of
                      Inl e \<Rightarrow> (False, update_content_status db1 qid ''failed'' [], calls)
                    | Inr audio \<Rightarrow>
                        if \<not> truthy audio
                        then (False,
                              update_content_status db1 qid ''failed''
                                [(Video_path, the video)], calls)
                        else
                          (case compose_final_result w k (the video) (the audio)
                                  (caption content) hook of
                             Inl e \<Rightarrow>
                               (False, update_content_status db1 qid ''failed'' [], calls)
                           | Inr final \<Rightarrow>
                               if \<not> truthy final
                               then (False,
                                     update_content_status db1 qid ''failed''
                                       [(Video_path, the video), (Audio_path, the audio)],
                                     calls)
                               else (True,
                                     update_content_status db1 qid ''generated''
                                       [(Video_path, the video), (Audio_path, the audio),
                                        (Final_video_path, the final)],
                                     calls)))))"

fun run_generation_loop ::
  "config \<Rightarrow> gen_world \<Rightarrow> nat \<Rightarrow> database \<Rightarrow> int list \<Rightarrow> video_call list \<Rightarrow> int list
     \<Rightarrow> int list \<times> database \<times> video_call list" where
  "run_generation_loop cfg w k db generated_ids calls [] = (generated_ids, db, calls)"
| "run_generation_loop cfg w k db generated_ids calls (qid # rest) =
     (case get_content db qid of
        None \<Rightarrow> run_generation_loop cfg w (Suc k) db generated_ids calls rest
      | Some content \<Rightarrow>
          (case generate_item cfg w k db qid content of
             (ok, db', made) \<Rightarrow>
               run_generation_loop cfg w (Suc k) db'
                 (if ok then generated_ids @ [qid] else generated_ids) (calls @ made) rest))"

definition run_generation ::
  "config \<Rightarrow> gen_world \<Rightarrow> database \<Rightarrow> int list \<Rightarrow> int list \<times> database \<times> video_call list" where
  "run_generation cfg w db queue_ids =
     (if SOUL_ID cfg = [] then ([], db, [])
      else run_generation_loop cfg w 0 db [] [] queue_ids)"

subsection \<open>Phase 5: scheduling\<close>

text \<open>
  The first loop of \<open>run_scheduling\<close> (lines 191 to 203) builds the batch and the
  dictionary \<open>id_map\<close> from batch index to queue id.
\<close>

fun build_batch ::
  "database \<Rightarrow> batch_item list \<Rightarrow> (nat \<rightharpoonup> int) \<Rightarrow> int list
     \<Rightarrow> batch_item list \<times> (nat \<rightharpoonup> int)" where
  "build_batch db batch id_map [] = (batch, id_map)"
| "build_batch db batch id_map (qid # rest) =
     (case get_content db qid of
        None \<Rightarrow> build_batch db batch id_map rest
      | Some content \<Rightarrow>
          if status content \<noteq> ''generated'' then build_batch db batch id_map rest
          else if \<not> truthy (final_video_path content) then build_batch db batch id_map rest
          else
            build_batch db
              (batch @ [\<lparr>bi_video_path = the (final_video_path content),
                         bi_caption = caption content\<rparr>])
              (id_map(length batch \<mapsto> qid)) rest)"

fun log_posts :: "database \<Rightarrow> int \<Rightarrow> string \<Rightarrow> string list \<Rightarrow> database" where
  "log_posts db qid sub_id [] = db"
| "log_posts db qid sub_id (plat # rest) =
     log_posts (log_post db qid plat sub_id ''scheduled'') qid sub_id rest"

text \<open>
  The second loop (lines 212 to 222) runs over \<open>enumerate(submission_ids)\<close>. The test
  \<open>if qid and sub_id\<close> is false for a missing key, for the id zero and for an empty
  submission id.
\<close>

fun mark_scheduled ::
  "(nat \<rightharpoonup> int) \<Rightarrow> string list \<Rightarrow> nat \<Rightarrow> database \<Rightarrow> int list \<Rightarrow> string list
     \<Rightarrow> int list \<times> database" where
  "mark_scheduled id_map platforms i db scheduled_ids [] = (scheduled_ids, db)"
| "mark_scheduled id_map platforms i db scheduled_ids (sub_id # rest) =
     (case id_map i of
        None \<Rightarrow> mark_scheduled id_map platforms (Suc i) db scheduled_ids rest
      | Some qid \<Rightarrow>
          if qid \<noteq> 0 \<and> sub_id \<noteq> []
          then
            mark_scheduled id_map platforms (Suc i)
              (log_posts
                 (update_content_status db qid ''scheduled'' [(Post_submission_id, sub_id)])
                 qid sub_id platforms)
              (scheduled_ids @ [qid]) rest
          else mark_scheduled id_map platforms (Suc i) db scheduled_ids rest)"

text \<open>\<open>platforms or Config.PLATFORMS\<close>: the default replaces \<open>None\<close> and the empty list.\<close>

definition platforms_or_default :: "config \<Rightarrow> string list option \<Rightarrow> string list" where
  "platforms_or_default cfg platforms_arg =
     (case platforms_arg of
        None \<Rightarrow> PLATFORMS cfg
      | Some ps \<Rightarrow> if ps = [] then PLATFORMS cfg else ps)"

text \<open>
  \<open>run_scheduling\<close> returns the scheduled ids, or the exception that escapes
  \<open>schedule_batch\<close> (nothing catches it here), and the database after the call.
\<close>

definition run_scheduling ::
  "config \<Rightarrow> sched_world \<Rightarrow> datetime \<Rightarrow> database \<Rightarrow> int list \<Rightarrow> string list option
     \<Rightarrow> (error + int list) \<times> database" where
  "run_scheduling cfg w now db queue_ids platforms_arg =
     (let platforms = platforms_or_default cfg platforms_arg
      in if BLOTATO_API_KEY cfg = [] then (Inr [], db)
         else
           (case build_batch db [] Map.empty queue_ids of
              (batch, id_map) \<Rightarrow>
                if batch = [] then (Inr [], db)
                else
                  (case schedule_batch cfg w now batch platforms of
                     Inl e \<Rightarrow> (Inl e, db)
                   | Inr (submission_ids, calls) \<Rightarrow>
                       (case mark_scheduled id_map platforms 0 db [] submission_ids of
                          (scheduled_ids, db') \<Rightarrow> (Inr scheduled_ids, db')))))"

subsection \<open>Sequences of phases\<close>

text \<open>
  A phase call with its arguments and with the answers of the outside world during it, and
  the database it leaves.
\<close>

datatype 'k phase =
    Run_discovery "int \<Rightarrow> int \<Rightarrow> error + 'k" config discovery_world int
  | Run_generation config gen_world "int list"
  | Run_scheduling config sched_world datetime "int list" "string list option"

fun run_phase :: "'k::linorder phase \<Rightarrow> database \<Rightarrow> database" where
  "run_phase (Run_discovery truediv cfg w cnt) db = snd (run_discovery truediv cfg w db cnt)"
| "run_phase (Run_generation cfg w queue_ids) db = fst (snd (run_generation cfg w db queue_ids))"
| "run_phase (Run_scheduling cfg w now queue_ids platforms_arg) db =
     snd (run_scheduling cfg w now db queue_ids platforms_arg)"

fun run_phases :: "'k::linorder phase list \<Rightarrow> database \<Rightarrow> database" where
  "run_phases [] db = db"
| "run_phases (p # ps) db = run_phases ps (run_phase p db)"

text \<open>
  A row has reached \<open>generated\<close> or \<open>scheduled\<close> when some status update set one of the
  two on it. A new row is \<open>pending\<close>, so the updates are the only way there, and the log
  has them all.
\<close>

definition reached :: "database \<Rightarrow> int \<Rightarrow> bool" where
  "reached db qid =
     (\<exists>e \<in> set (status_log db).
        fst e = qid \<and> (snd (snd e) = ''generated'' \<or> snd (snd e) = ''scheduled''))"

text \<open>
  What every sequence of phases keeps: no row id is above the counter, every row has its
  final video path set exactly when it has reached \<open>generated\<close> or \<open>scheduled\<close>, and every
  entry of the log is about a row of the table.
\<close>

definition well_logged :: "database \<Rightarrow> bool" where
  "well_logged db =
     ((\<forall>qid c. rows db qid = Some c \<longrightarrow>
         qid \<le> last_id db \<and> truthy (final_video_path c) = reached db qid) \<and>
      (\<forall>e \<in> set (status_log db). rows db (fst e) \<noteq> None))"

definition empty_database :: database where
  "empty_database = \<lparr>rows = Map.empty, last_id = 0, post_log = [], status_log = []\<rparr>"

section \<open>Composition (pipeline/video_editor.py, utils/file_manager.py)\<close>

text \<open>
  The file system is a map from path to the size of the file in bytes. A path names one
  file: two different strings are taken to be two different files. Directories are not
  files and creating them is not modelled.
\<close>

type_synonym files = "string \<rightharpoonup> nat"

definition verify_file :: "files \<Rightarrow> string \<Rightarrow> nat \<Rightarrow> bool" where
  "verify_file fs path min_size =
     (case fs path of None \<Rightarrow> False | Some sz \<Rightarrow> \<not> sz < min_size)"















section \<open>Notions used to state the properties, and concrete inputs\<close>


text \<open>
  A word as \<open>split\<close> yields it: not empty and free of whitespace. A line is tight when
  it neither starts nor ends with whitespace.
\<close>

definition good_word :: "pystr \<Rightarrow> bool" where
  "good_word w = (w \<noteq> [] \<and> (\<forall>c \<in> set w. \<not> isspace c))"

definition tight :: "pystr \<Rightarrow> bool" where
  "tight l = (l \<noteq> [] \<and> \<not> isspace (hd l) \<and> \<not> isspace (last l))"

text \<open>
  Two instances of the division parameter of the score. \<open>exact_div\<close> never raises and
  does not round. \<open>float_div\<close> raises as Python does on a zero divisor, and raises
  \<open>OverflowError\<close> when the quotient is \<open>2 ^ 1024\<close> or more in absolute value, which is
  beyond every float; below that bound it is exact where Python rounds.
\<close>

definition exact_div :: "int \<Rightarrow> int \<Rightarrow> error + rat" where
  "exact_div a b = Inr (of_int a / of_int b)"

definition float_div :: "int \<Rightarrow> int \<Rightarrow> error + rat" where
  "float_div a b =
     (if b = 0 then Inl ZeroDivisionError
      else if 2 ^ 1024 * \<bar>b\<bar> \<le> \<bar>a\<bar> then Inl OverflowError
      else Inr (of_int a / of_int b))"

text \<open>
  The counter of a scraped item as a number, a missing or null counter counting as zero,
  and the score of an item as a value, where the division returns one.
\<close>

definition counter :: "int option \<Rightarrow> int" where
  "counter v = (case v of None \<Rightarrow> 0 | Some n \<Rightarrow> n)"

definition score :: "(int \<Rightarrow> int \<Rightarrow> error + 'k) \<Rightarrow> scraped_item \<Rightarrow> 'k" where
  "score truediv item = projr (engagement_score truediv item)"

text \<open>
  A row that \<open>run_scheduling\<close> may pick: its status is \<open>generated\<close> and its final video
  path is set.
\<close>

definition eligible :: "database \<Rightarrow> int \<Rightarrow> bool" where
  "eligible db qid =
     (case rows db qid of
        None \<Rightarrow> False
      | Some c \<Rightarrow> status c = ''generated'' \<and> truthy (final_video_path c))"

text \<open>
  Kinds of entries \<open>(id, before, after)\<close> of the status log. A generation step sets
  \<open>generating\<close>, or goes from \<open>generating\<close> to \<open>generated\<close> or \<open>failed\<close>. A chain step is a
  generation step that sets \<open>generating\<close> on a pending row. A scheduling step sets
  \<open>scheduled\<close> on a row that is \<open>generated\<close>, or \<open>scheduled\<close> already. A claimed step is
  what the specification allows: a chain step, or from \<open>generated\<close> to \<open>scheduled\<close>.
\<close>

definition generation_step :: "int \<times> string \<times> string \<Rightarrow> bool" where
  "generation_step e =
     (snd (snd e) = ''generating'' \<or>
      (fst (snd e) = ''generating'' \<and>
       (snd (snd e) = ''generated'' \<or> snd (snd e) = ''failed'')))"

definition chain_step :: "int \<times> string \<times> string \<Rightarrow> bool" where
  "chain_step e =
     ((fst (snd e) = ''pending'' \<and> snd (snd e) = ''generating'') \<or>
      (fst (snd e) = ''generating'' \<and>
       (snd (snd e) = ''generated'' \<or> snd (snd e) = ''failed'')))"

definition scheduling_step :: "int \<times> string \<times> string \<Rightarrow> bool" where
  "scheduling_step e =
     (snd (snd e) = ''scheduled'' \<and>
      (fst (snd e) = ''generated'' \<or> fst (snd e) = ''scheduled''))"

definition claimed_step :: "int \<times> string \<times> string \<Rightarrow> bool" where
  "claimed_step e =
     (chain_step e \<or> (fst (snd e) = ''generated'' \<and> snd (snd e) = ''scheduled''))"

text \<open>A list of ids without repetition whose rows, where they exist, are pending.\<close>

definition pending_ids :: "database \<Rightarrow> int list \<Rightarrow> bool" where
  "pending_ids db queue_ids =
     (distinct queue_ids \<and>
      (\<forall>qid \<in> set queue_ids. case rows db qid of
                                None \<Rightarrow> True
                              | Some c \<Rightarrow> status c = ''pending''))"

text \<open>
  A configuration with every key set and three posts per day; a moment in time; a
  scheduling service that accepts every upload and every post; a batch of four videos.
\<close>

definition demo_cfg :: config where
  "demo_cfg =
     \<lparr>APIFY_API_TOKEN = ''a'', GEMINI_API_KEY = ''g'', HIGGSFIELD_API_KEY = ''h'',
      ELEVENLABS_API_KEY = ''e'', BLOTATO_API_KEY = ''b'', SOUL_ID = ''soul'',
      POSTS_PER_DAY = 3, PLATFORMS = [''tiktok''], OUTPUTS_DIR = ''out'',
      FINAL_DIR = ''out/final''\<rparr>"

definition demo_now :: datetime where
  "demo_now =
     \<lparr>dt_day = 739000, dt_hour = 10, dt_minute = 30, dt_second = 15, dt_microsecond = 250\<rparr>"

definition demo_sched_world :: sched_world where
  "demo_sched_world =
     \<lparr>path_exists = (\<lambda>i p. True),
      upload_response = (\<lambda>i p. Some [''media_id'' \<mapsto> ''m'' @ p]),
      post_response = (\<lambda>i m c ps t. Some [''post_submission_id'' \<mapsto> ''s'' @ m])\<rparr>"


text \<open>Five scraped items with the scores 1/10, 1/2, 1/10, 5 and 1/2.\<close>

definition demo_item :: "string \<Rightarrow> int \<Rightarrow> int \<Rightarrow> int \<Rightarrow> scraped_item" where
  "demo_item u l s v =
     \<lparr>url = u, description = [], likes = Some l, shares = Some s, views = Some v,
      author = [], platform = []\<rparr>"

definition demo_scrape_world :: scrape_world where
  "demo_scrape_world =
     \<lparr>scrape_viral_tiktok = Inr [demo_item ''a'' 10 0 100, demo_item ''b'' 30 20 100],
      scrape_viral_instagram = Inr [demo_item ''c'' 1 0 10, demo_item ''d'' 5 0 0],
      scrape_viral_youtube = Inr [demo_item ''e'' 2 3 10],
      save_top_error = None\<rparr>"

text \<open>A scrape that returns one item with \<open>2 ^ 1024\<close> likes and one view.\<close>

definition demo_huge_world :: scrape_world where
  "demo_huge_world =
     \<lparr>scrape_viral_tiktok = Inr [demo_item ''a'' (2 ^ 1024) 0 1],
      scrape_viral_instagram = Inr [],
      scrape_viral_youtube = Inr [],
      save_top_error = None\<rparr>"

text \<open>
  The caption \<^verbatim>\<open>automation saves salespeople hours every week\<close>, 45 characters, as code
  points.
\<close>

definition demo_caption :: pystr where
  "demo_caption =
     [97, 117, 116, 111, 109, 97, 116, 105, 111, 110, 32, 115, 97, 118, 101, 115, 32, 115, 97,
      108, 101, 115, 112, 101, 111, 112, 108, 101, 32, 104, 111, 117, 114, 115, 32, 101, 118,
      101, 114, 121, 32, 119, 101, 101, 107]"




text \<open>
  An analyzer that finds one script; a generation world in which voice and composition
  succeed and the video succeeds or not; a table with row 1 generated and row 2 pending;
  the discovery phase on the demo inputs.
\<close>

definition demo_discovery_world :: discovery_world where
  "demo_discovery_world =
     \<lparr>scraping = demo_scrape_world,
      analyze_content =
        (\<lambda>raw. Inr [\<lparr>a_source_url = ''u'', a_topic = ''t'', a_script = ''s'',
                      a_caption = ''c''\<rparr>])\<rparr>"

definition demo_gen_world :: "bool \<Rightarrow> gen_world" where
  "demo_gen_world video_ok =
     \<lparr>script_hook = (\<lambda>k c. Inr (Map.empty, ''hook'')),
      generate_video_result = (\<lambda>k p s. if video_ok then Some ''v.mp4'' else None),
      synthesize_result = (\<lambda>k j. Inr (Some ''a.mp3'')),
      compose_final_result = (\<lambda>k v a c h. Inr (Some ''f.mp4''))\<rparr>"

definition demo_row :: "string \<Rightarrow> string option \<Rightarrow> content" where
  "demo_row st final =
     \<lparr>source_url = ''u'', topic = ''t'', script = ''s'', caption = ''c'', status = st,
      video_path = None, audio_path = None, final_video_path = final,
      post_submission_id = None\<rparr>"

definition demo_db :: database where
  "demo_db =
     \<lparr>rows = [1 \<mapsto> demo_row ''generated'' (Some ''f.mp4''), 2 \<mapsto> demo_row ''pending'' None],
      last_id = 2, post_log = [], status_log = []\<rparr>"

definition demo_discover :: "rat phase" where
  "demo_discover = Run_discovery exact_div demo_cfg demo_discovery_world 20"

definition demo_generate :: "bool \<Rightarrow> rat phase" where
  "demo_generate video_ok = Run_generation demo_cfg (demo_gen_world video_ok) [1]"

definition demo_schedule :: "rat phase" where
  "demo_schedule = Run_scheduling demo_cfg demo_sched_world demo_now [1] None"






section \<open>Properties\<close>

subsection \<open>Batch scheduling\<close>














subsection \<open>Engagement ranking\<close>

lemma keys_of_values:
  "\<forall>x \<in> set xs. \<not> isl (key x) \<Longrightarrow> keys_of key xs = Inr (map (\<lambda>x. projr (key x)) xs)"
proof (induction xs)
  case Nil
  show ?case by simp
next
  case (Cons x xs)
  from Cons.prems obtain k where k: "key x = Inr k" by (cases "key x") auto
  from Cons.IH Cons.prems have "keys_of key xs = Inr (map (\<lambda>x. projr (key x)) xs)" by simp
  with k show ?case by simp
qed

lemma keys_of_raises:
  "key x = Inl e \<Longrightarrow> \<forall>y \<in> set pre. \<not> isl (key y) \<Longrightarrow> keys_of key (pre @ x # rest) = Inl e"
proof (induction pre)
  case Nil
  then show ?case by simp
next
  case (Cons y pre)
  from Cons.prems(2) obtain k where "key y = Inr k" by (cases "key y") auto
  with Cons show ?case by simp
qed

lemma insort_key_keyed:
  "insort_key fst (f x, x) (map (\<lambda>x. (f x, x)) ys) = map (\<lambda>x. (f x, x)) (insort_key f x ys)"
  by (induction ys) simp_all

lemma sort_key_keyed:
  "sort_key fst (map (\<lambda>x. (f x, x)) xs) = map (\<lambda>x. (f x, x)) (sort_key f xs)"
  by (induction xs) (simp_all add: insort_key_keyed)

lemma zip_keyed: "zip (map f xs) xs = map (\<lambda>x. (f x, x)) xs"
  by (induction xs) simp_all

text \<open>
  Where no key raises, the sort is the stable sort by the value of the key, in
  descending order.
\<close>

lemma py_sort_reverse_values:
  assumes "\<forall>x \<in> set xs. \<not> isl (key x)"
  shows "py_sort key True xs = Inr (rev (sort_key (\<lambda>x. projr (key x)) (rev xs)))"
proof -
  let ?f = "\<lambda>x. projr (key x)"
  have "rev (zip (map ?f xs) xs) = map (\<lambda>x. (?f x, x)) (rev xs)"
    by (simp add: zip_keyed rev_map)
  then have "map snd (rev (sort_key fst (rev (zip (map ?f xs) xs)))) =
             rev (sort_key ?f (rev xs))"
    by (simp add: sort_key_keyed rev_map comp_def)
  then show ?thesis
    using keys_of_values[OF assms] by (simp add: py_sort_def)
qed

lemma rev_sort_key_sorted:
  "sorted_wrt (\<lambda>a b. f b \<le> f a) (rev (sort_key f (rev xs)))"
proof -
  have "sorted (map f (sort_key f (rev xs)))" by simp
  then have "sorted_wrt (\<lambda>a b. f a \<le> f b) (sort_key f (rev xs))"
    by (simp add: sorted_map)
  then show ?thesis by (simp add: sorted_wrt_rev)
qed

lemma rev_sort_key_stable:
  "filter (\<lambda>x. f x = k) (rev (sort_key f (rev xs))) = filter (\<lambda>x. f x = k) xs"
proof -
  have "filter (\<lambda>x. f x = k) (rev (sort_key f (rev xs))) =
        rev (filter (\<lambda>x. f x = k) (sort_key f (rev xs)))"
    by (simp add: rev_filter)
  also have "\<dots> = rev (filter (\<lambda>x. f x = k) (rev xs))"
    by (simp only: sort_key_stable)
  also have "\<dots> = filter (\<lambda>x. f x = k) xs"
    by (simp add: rev_filter)
  finally show ?thesis .
qed

lemma engagement_score_formula:
  "engagement_score truediv item =
     truediv (counter (likes item) + counter (shares item)) (max (counter (views item)) 1)"
proof -
  have l: "get_or (likes item) 0 = counter (likes item)"
    by (simp add: get_or_def counter_def split: option.splits)
  have s: "get_or (shares item) 0 = counter (shares item)"
    by (simp add: get_or_def counter_def split: option.splits)
  have v: "max (get_or (views item) 1) 1 = max (counter (views item)) 1"
    by (simp add: get_or_def counter_def split: option.splits)
  show ?thesis by (simp add: engagement_score_def Let_def l s v)
qed

text \<open>
  C2, for the lists on which no score raises. The score of an item is the quotient of
  likes plus shares by the larger of views and 1, a missing or null counter counting as
  zero. When the three scrapes and the saving of the result succeed and every score of
  the combined items \<open>t @ g @ y\<close> is a value, \<open>get_top_content\<close> returns the first \<open>cnt\<close>
  items (for a negative \<open>cnt\<close>: all but the last \<open>- cnt\<close>) of the ranking of the combined
  items: the same items, in descending order of score, the items of equal score in their
  input order.
\<close>

theorem get_top_content_ranked:
  assumes "scrape_viral_tiktok w = Inr t" and "scrape_viral_instagram w = Inr g"
    and "scrape_viral_youtube w = Inr y" and "save_top_error w = None"
    and "\<forall>x \<in> set (t @ g @ y). \<not> isl (engagement_score truediv x)"
  shows "engagement_score truediv item =
           truediv (counter (likes item) + counter (shares item))
             (max (counter (views item)) 1) \<and>
         (\<exists>ranked.
            get_top_content truediv w cnt =
              Inr (if 0 \<le> cnt then take (nat cnt) ranked
                   else take (nat (int (length ranked) + cnt)) ranked) \<and>
            mset ranked = mset (t @ g @ y) \<and>
            sorted_wrt (\<lambda>a b. score truediv b \<le> score truediv a) ranked \<and>
            (\<forall>k. filter (\<lambda>x. score truediv x = k) ranked =
                 filter (\<lambda>x. score truediv x = k) (t @ g @ y)))"
proof (rule conjI)
  show "engagement_score truediv item =
           truediv (counter (likes item) + counter (shares item))
             (max (counter (views item)) 1)"
    by (rule engagement_score_formula)
next
  let ?all = "t @ g @ y"
  let ?f = "\<lambda>x. projr (engagement_score truediv x)"
  let ?ranked = "rev (sort_key ?f (rev ?all))"
  have f: "score truediv = ?f" by (rule ext) (simp add: score_def)
  have sorted: "py_sort (engagement_score truediv) True ?all = Inr ?ranked"
    by (rule py_sort_reverse_values[OF assms(5)])
  have res: "get_top_content truediv w cnt =
               Inr (if 0 \<le> cnt then take (nat cnt) ?ranked
                    else take (nat (int (length ?ranked) + cnt)) ?ranked)"
  proof (cases "?all = []")
    case True
    then show ?thesis using assms(1-4) by (simp add: get_top_content_def)
  next
    case False
    then show ?thesis
      using assms(1-4) sorted by (auto simp: get_top_content_def Let_def slice_to_def)
  qed
  have m: "mset ?ranked = mset ?all" by simp
  have s: "sorted_wrt (\<lambda>a b. score truediv b \<le> score truediv a) ?ranked"
    unfolding f by (rule rev_sort_key_sorted)
  have st: "\<forall>k. filter (\<lambda>x. score truediv x = k) ?ranked =
                filter (\<lambda>x. score truediv x = k) ?all"
    unfolding f using rev_sort_key_stable[of ?f _ ?all] by blast
  from res m s st show "\<exists>ranked.
            get_top_content truediv w cnt =
              Inr (if 0 \<le> cnt then take (nat cnt) ranked
                   else take (nat (int (length ranked) + cnt)) ranked) \<and>
            mset ranked = mset (t @ g @ y) \<and>
            sorted_wrt (\<lambda>a b. score truediv b \<le> score truediv a) ranked \<and>
            (\<forall>k. filter (\<lambda>x. score truediv x = k) ranked =
                 filter (\<lambda>x. score truediv x = k) (t @ g @ y))"
    by (intro exI[of _ ?ranked] conjI)
qed

text \<open>
  The five items of \<open>demo_scrape_world\<close> have the scores 1/10, 1/2, 1/10, 5 and 1/2 under
  exact division. The top four are \<open>d\<close> (score 5), then \<open>b\<close> and \<open>e\<close> (both 1/2, \<open>b\<close>
  scraped first), then \<open>a\<close> (1/10, scraped before \<open>c\<close>).
\<close>

theorem get_top_content_ranked_witness:
  "scrape_viral_tiktok demo_scrape_world =
     Inr [demo_item ''a'' 10 0 100, demo_item ''b'' 30 20 100] \<and>
   scrape_viral_instagram demo_scrape_world =
     Inr [demo_item ''c'' 1 0 10, demo_item ''d'' 5 0 0] \<and>
   scrape_viral_youtube demo_scrape_world = Inr [demo_item ''e'' 2 3 10] \<and>
   save_top_error demo_scrape_world = None \<and>
   map (engagement_score exact_div)
     [demo_item ''a'' 10 0 100, demo_item ''b'' 30 20 100, demo_item ''c'' 1 0 10,
      demo_item ''d'' 5 0 0, demo_item ''e'' 2 3 10] =
     [Inr (1 / 10), Inr (1 / 2), Inr (1 / 10), Inr 5, Inr (1 / 2)] \<and>
   get_top_content exact_div demo_scrape_world 4 =
     Inr [demo_item ''d'' 5 0 0, demo_item ''b'' 30 20 100, demo_item ''e'' 2 3 10,
          demo_item ''a'' 10 0 100]"
  using get_top_content_ranked
    [of demo_scrape_world "[demo_item ''a'' 10 0 100, demo_item ''b'' 30 20 100]"
        "[demo_item ''c'' 1 0 10, demo_item ''d'' 5 0 0]" "[demo_item ''e'' 2 3 10]"
        exact_div "demo_item ''d'' 5 0 0" 4]
  by (simp add: get_top_content_def demo_scrape_world_def demo_item_def py_sort_def
      slice_to_def engagement_score_def get_or_def exact_div_def Let_def)

text \<open>
  C2, as the specification words it, fails for a list with a huge counter: an item with
  \<open>2 ^ 1024\<close> likes and one view has no score, the division raises \<open>OverflowError\<close>, and
  \<open>get_top_content\<close> raises it instead of ordering the list.
\<close>

theorem get_top_content_overflow:
  "engagement_score float_div (demo_item ''a'' (2 ^ 1024) 0 1) = Inl OverflowError \<and>
   get_top_content float_div demo_huge_world 20 = Inl OverflowError"
proof -
  have "float_div (2 ^ 1024) 1 = Inl OverflowError"
    by (simp add: float_div_def)
  then have e: "engagement_score float_div (demo_item ''a'' (2 ^ 1024) 0 1) =
                  Inl OverflowError"
    by (simp add: engagement_score_def demo_item_def get_or_def Let_def)
  then show ?thesis
    by (simp add: get_top_content_def demo_huge_world_def py_sort_def)
qed

subsection \<open>Caption wrapping\<close>

lemma split_from_nonspace:
  "\<forall>c \<in> set w. \<not> isspace c \<Longrightarrow> split_from cur (w @ rest) = split_from (cur @ w) rest"
  by (induction w arbitrary: cur) auto

lemma split_from_space:
  "isspace sp \<Longrightarrow> split_from a (xs @ sp # ys) = split_from a xs @ split_from [] ys"
  by (induction xs arbitrary: a) auto

lemma isspace_32: "isspace 32"
  by (simp add: isspace_def)

lemma split_from_good:
  "\<forall>c \<in> set cur. \<not> isspace c \<Longrightarrow> w \<in> set (split_from cur s) \<Longrightarrow> good_word w"
proof (induction s arbitrary: cur)
  case Nil
  then show ?case by (cases "cur = []") (simp_all add: good_word_def)
next
  case (Cons c cs)
  have nil: "w \<in> set (split_from [] cs) \<Longrightarrow> good_word w"
    using Cons.IH[of "[]"] by simp
  show ?case
  proof (cases "isspace c")
    case sp: True
    show ?thesis
    proof (cases "cur = []")
      case True
      with sp Cons.prems(2) have "w \<in> set (split_from [] cs)" by simp
      then show ?thesis by (rule nil)
    next
      case False
      with sp Cons.prems(2) have "w = cur \<or> w \<in> set (split_from [] cs)" by simp
      then show ?thesis
      proof
        assume "w = cur"
        then show ?thesis using Cons.prems(1) False by (simp add: good_word_def)
      next
        assume "w \<in> set (split_from [] cs)"
        then show ?thesis by (rule nil)
      qed
    qed
  next
    case False
    with Cons.prems(2) have "w \<in> set (split_from (cur @ [c]) cs)" by simp
    moreover have "\<forall>x \<in> set (cur @ [c]). \<not> isspace x" using Cons.prems(1) False by simp
    ultimately show ?thesis using Cons.IH by blast
  qed
qed

lemma split_good: "w \<in> set (split s) \<Longrightarrow> good_word w"
  unfolding split_def by (rule split_from_good[of "[]"]) simp_all

lemma split_word: "good_word w \<Longrightarrow> split w = [w]"
  using split_from_nonspace[of w "[]" "[]"] by (simp add: split_def good_word_def)

lemma split_Nil: "split [] = []"
  by (simp add: split_def)

lemma split_join: "split (l @ 32 # w) = split l @ split w"
  using split_from_space[OF isspace_32, of "[]" l w] by (simp add: split_def)

lemma good_tight: "good_word w \<Longrightarrow> tight w"
  by (simp add: good_word_def tight_def)

lemma strip_tight: "tight l \<Longrightarrow> strip l = l"
proof -
  assume t: "tight l"
  then have "dropWhile isspace l = l"
    by (cases l) (auto simp: tight_def)
  moreover from t have "dropWhile isspace (rev l) = rev l"
    by (cases "rev l") (auto simp: tight_def hd_rev)
  ultimately show ?thesis by (simp add: strip_def)
qed

lemma strip_space_word: "good_word w \<Longrightarrow> strip ([] @ [32] @ w) = w"
  using strip_tight[OF good_tight, of w]
  by (simp add: strip_def isspace_32)

lemma tight_join: "tight l \<Longrightarrow> good_word w \<Longrightarrow> tight (l @ [32] @ w)"
  by (auto simp: tight_def good_word_def)

text \<open>
  The invariant of the loop: the lines and the current line are at most 40 long, the
  current line is empty or tight, and the words read so far are those of the lines
  followed by those of the current line.
\<close>

lemma wrap_loop_invariant:
  assumes "\<forall>w \<in> set ws. good_word w \<and> length w \<le> 39"
    and "cur = [] \<or> tight cur" and "length cur \<le> 40"
    and "\<forall>l \<in> set lines. length l \<le> 40"
    and "wrap_loop lines cur ws = (lines', cur')"
  shows "(\<forall>l \<in> set lines'. length l \<le> 40) \<and> length cur' \<le> 40 \<and>
         concat (map split lines') @ split cur' = concat (map split lines) @ split cur @ ws"
  using assms
proof (induction ws arbitrary: lines cur)
  case Nil
  then show ?case by simp
next
  case (Cons w ws)
  have gw: "good_word w" and lw: "length w \<le> 39" using Cons.prems(1) by auto
  have rest: "\<forall>w \<in> set ws. good_word w \<and> length w \<le> 39" using Cons.prems(1) by simp
  show ?case
  proof (cases "length cur + length w + 1 > 40")
    case True
    then have run: "wrap_loop (lines @ [cur]) w ws = (lines', cur')"
      using Cons.prems(5) by simp
    have "(\<forall>l \<in> set lines'. length l \<le> 40) \<and> length cur' \<le> 40 \<and>
          concat (map split lines') @ split cur' =
          concat (map split (lines @ [cur])) @ split w @ ws"
      using Cons.prems(3,4) lw gw
      by (intro Cons.IH[OF rest _ _ _ run]) (auto simp: good_tight)
    then show ?thesis by (simp add: split_word[OF gw])
  next
    case False
    then have run: "wrap_loop lines (strip (cur @ [32] @ w)) ws = (lines', cur')"
      using Cons.prems(5) by simp
    show ?thesis
    proof (cases "cur = []")
      case True
      then have eq: "strip (cur @ [32] @ w) = w"
        using strip_space_word[OF gw] by simp
      have "(\<forall>l \<in> set lines'. length l \<le> 40) \<and> length cur' \<le> 40 \<and>
          concat (map split lines') @ split cur' = concat (map split lines) @ split w @ ws"
        using Cons.prems(4) lw gw run
        unfolding eq
        by (intro Cons.IH[OF rest]) (auto simp: good_tight)
      then show ?thesis using True by (simp add: split_word[OF gw] split_Nil)
    next
      case ne: False
      then have t: "tight cur" using Cons.prems(2) by simp
      have t': "tight (cur @ [32] @ w)" by (rule tight_join[OF t gw])
      have eq: "strip (cur @ [32] @ w) = cur @ [32] @ w" by (rule strip_tight[OF t'])
      have "(\<forall>l \<in> set lines'. length l \<le> 40) \<and> length cur' \<le> 40 \<and>
          concat (map split lines') @ split cur' =
          concat (map split lines) @ split (cur @ [32] @ w) @ ws"
        using Cons.prems(4) False t' run
        unfolding eq
        by (intro Cons.IH[OF rest]) auto
      then show ?thesis by (simp add: split_join split_word[OF gw])
    qed
  qed
qed

text \<open>
  C10. For every caption whose words are at most 39 characters long, every line that
  \<open>add_captions\<close> builds is at most 40 characters long, and the words of the lines, taken
  in order, are the words of the caption.
\<close>

theorem caption_lines_wrap:
  assumes "\<forall>w \<in> set (split caption_text). length w \<le> 39"
  shows "(\<forall>l \<in> set (caption_lines caption_text). length l \<le> 40) \<and>
         concat (map split (caption_lines caption_text)) = split caption_text"
proof -
  obtain lines' cur' where run: "wrap_loop [] [] (split caption_text) = (lines', cur')"
    by (cases "wrap_loop [] [] (split caption_text)")
  have ws: "\<forall>w \<in> set (split caption_text). good_word w \<and> length w \<le> 39"
    using assms split_good by blast
  have "(\<forall>l \<in> set lines'. length l \<le> 40) \<and> length cur' \<le> 40 \<and>
         concat (map split lines') @ split cur' =
         concat (map split []) @ split [] @ split caption_text"
    by (rule wrap_loop_invariant[OF ws _ _ _ run]) auto
  then show ?thesis
    by (auto simp: caption_lines_def run split_Nil)
qed

text \<open>
  The 45 characters of \<open>demo_caption\<close> are wrapped into a line of 40 and a line of 4.
\<close>

theorem caption_lines_wrap_witness:
  "map length (split demo_caption) = [10, 5, 11, 5, 5, 4] \<and>
   map length (caption_lines demo_caption) = [40, 4] \<and>
   concat (map split (caption_lines demo_caption)) = split demo_caption"
proof -
  have s: "map length (split demo_caption) = [10, 5, 11, 5, 5, 4]"
    by (simp add: demo_caption_def split_def isspace_def)
  have "\<forall>n \<in> set (map length (split demo_caption)). n \<le> 39"
    unfolding s by simp
  then have h: "\<forall>w \<in> set (split demo_caption). length w \<le> 39"
    by simp
  have e: "map length (caption_lines demo_caption) = [40, 4]"
    by (simp add: demo_caption_def caption_lines_def split_def isspace_def strip_def)
  from caption_lines_wrap[OF h] s e show ?thesis by blast
qed

subsection \<open>The content queue\<close>

lemmas db_evals =
  run_discovery_def get_top_content_def demo_scrape_world_def demo_item_def py_sort_def
  slice_to_def engagement_score_def get_or_def exact_div_def Let_def
  ApifyScraper_init_def GeminiAnalyzer_init_def demo_cfg_def demo_discovery_world_def
  add_content_def empty_database_def demo_discover_def demo_generate_def demo_schedule_def
  run_generation_def generate_item_def demo_gen_world_def generate_video_def
  synthesize_script_def update_content_status_def get_content_def truthy_def
  run_scheduling_def platforms_or_default_def log_post_def
  schedule_batch_def demo_sched_world_def demo_now_def upload_media_def schedule_post_def
  get2_def schedule_dt_def hours_def replace_time_def add_days_def demo_db_def demo_row_def

lemma status_set_fields [simp]: "status (set_fields kw c) = status c"
proof (induction kw arbitrary: c)
  case Nil
  then show ?case by simp
next
  case (Cons a kw)
  obtain k v where a: "a = (k, v)" by (cases a)
  show ?case unfolding a by (cases k) (simp_all add: Cons.IH)
qed

lemma rows_update_other:
  "q \<noteq> qid \<Longrightarrow> rows (update_content_status db qid st kw) q = rows db q"
  by (simp add: update_content_status_def split: option.splits)

lemma rows_update_missing:
  "rows db qid = None \<Longrightarrow> update_content_status db qid st kw = db"
  by (simp add: update_content_status_def)

lemma status_log_update:
  "rows db qid = Some c \<Longrightarrow>
   status_log (update_content_status db qid st kw) = status_log db @ [(qid, status c, st)]"
  by (simp add: update_content_status_def)

lemma rows_log_posts [simp]: "rows (log_posts db qid sub pl) = rows db"
  by (induction pl arbitrary: db) (simp_all add: log_post_def)

lemma status_log_log_posts [simp]: "status_log (log_posts db qid sub pl) = status_log db"
  by (induction pl arbitrary: db) (simp_all add: log_post_def)

subsection \<open>The scheduling phase\<close>

lemma build_batch_eligible:
  "build_batch db batch id_map qids = (b', m') \<Longrightarrow>
   \<forall>q \<in> ran id_map. eligible db q \<Longrightarrow> \<forall>q \<in> ran m'. eligible db q"
proof (induction qids arbitrary: batch id_map)
  case Nil
  then show ?case by simp
next
  case (Cons qid rest)
  show ?case
  proof (cases "eligible db qid")
    case True
    then obtain c where c: "rows db qid = Some c" "status c = ''generated''"
        "truthy (final_video_path c)"
      by (auto simp: eligible_def split: option.splits)
    let ?item = "\<lparr>bi_video_path = the (final_video_path c), bi_caption = caption c\<rparr>"
    from Cons.prems(1) c
    have run: "build_batch db (batch @ [?item]) (id_map(length batch \<mapsto> qid)) rest = (b', m')"
      by (simp add: get_content_def)
    have "\<forall>q \<in> ran (id_map(length batch \<mapsto> qid)). eligible db q"
    proof
      fix q assume "q \<in> ran (id_map(length batch \<mapsto> qid))"
      then obtain i where "(id_map(length batch \<mapsto> qid)) i = Some q" by (auto simp: ran_def)
      then have "q = qid \<or> id_map i = Some q" by (auto split: if_splits)
      then show "eligible db q" using True Cons.prems(2) by (auto simp: ran_def)
    qed
    from Cons.IH[OF run this] show ?thesis .
  next
    case False
    with Cons.prems(1) have "build_batch db batch id_map rest = (b', m')"
      by (auto simp: eligible_def get_content_def split: option.splits if_splits)
    from Cons.IH[OF this Cons.prems(2)] show ?thesis .
  qed
qed

text \<open>Every update of the second loop hits an id of the map and writes \<open>scheduled\<close>.\<close>

lemma mark_scheduled_effect:
  "mark_scheduled id_map pl i db sch subs = (sch', db') \<Longrightarrow>
   (\<forall>q. q \<notin> ran id_map \<longrightarrow> rows db' q = rows db q) \<and>
   (set sch' \<subseteq> set sch \<union> ran id_map) \<and>
   (\<exists>entries. status_log db' = status_log db @ entries \<and>
      (\<forall>e \<in> set entries. fst e \<in> ran id_map \<and> snd (snd e) = ''scheduled''))"
proof (induction subs arbitrary: i db sch)
  case Nil
  then show ?case by simp
next
  case (Cons sub rest)
  show ?case
  proof (cases "id_map i")
    case None
    with Cons.prems have "mark_scheduled id_map pl (Suc i) db sch rest = (sch', db')" by simp
    from Cons.IH[OF this] show ?thesis .
  next
    case (Some qid)
    show ?thesis
    proof (cases "qid \<noteq> 0 \<and> sub \<noteq> []")
      case False
      with Some Cons.prems have "mark_scheduled id_map pl (Suc i) db sch rest = (sch', db')"
        by auto
      from Cons.IH[OF this] show ?thesis .
    next
      case True
      let ?db1 = "update_content_status db qid ''scheduled'' [(Post_submission_id, sub)]"
      let ?db2 = "log_posts ?db1 qid sub pl"
      have qr: "qid \<in> ran id_map" using Some by (auto simp: ran_def)
      from True Some Cons.prems
      have run: "mark_scheduled id_map pl (Suc i) ?db2 (sch @ [qid]) rest = (sch', db')"
        by simp
      note ih = Cons.IH[OF run]
      have rows2: "\<forall>q. q \<notin> ran id_map \<longrightarrow> rows ?db2 q = rows db q"
      proof (intro allI impI)
        fix q assume "q \<notin> ran id_map"
        with qr have "q \<noteq> qid" by auto
        then show "rows ?db2 q = rows db q" by (simp add: rows_update_other)
      qed
      have log2: "\<exists>es. status_log ?db2 = status_log db @ es \<and>
                   (\<forall>e \<in> set es. fst e \<in> ran id_map \<and> snd (snd e) = ''scheduled'')"
      proof (cases "rows db qid")
        case None
        then show ?thesis by (simp add: rows_update_missing)
      next
        case (Some c)
        then show ?thesis using qr by (simp add: status_log_update)
      qed
      then obtain es where es: "status_log ?db2 = status_log db @ es"
          "\<forall>e \<in> set es. fst e \<in> ran id_map \<and> snd (snd e) = ''scheduled''"
        by blast
      from ih obtain es' where es': "status_log db' = status_log ?db2 @ es'"
          "\<forall>e \<in> set es'. fst e \<in> ran id_map \<and> snd (snd e) = ''scheduled''"
        by blast
      have "status_log db' = status_log db @ (es @ es')" using es es' by simp
      moreover have "\<forall>e \<in> set (es @ es'). fst e \<in> ran id_map \<and> snd (snd e) = ''scheduled''"
        using es es' by auto
      ultimately have l: "\<exists>entries. status_log db' = status_log db @ entries \<and>
          (\<forall>e \<in> set entries. fst e \<in> ran id_map \<and> snd (snd e) = ''scheduled'')"
        by blast
      have r: "\<forall>q. q \<notin> ran id_map \<longrightarrow> rows db' q = rows db q"
        using ih rows2 by simp
      have s: "set sch' \<subseteq> set sch \<union> ran id_map" using ih qr by auto
      from r s l show ?thesis by blast
    qed
  qed
qed

lemma run_scheduling_unfold:
  "build_batch db [] Map.empty queue_ids = (batch, id_map) \<Longrightarrow>
   run_scheduling cfg w now db queue_ids platforms_arg =
     (if BLOTATO_API_KEY cfg = [] \<or> batch = [] then (Inr [], db)
      else case schedule_batch cfg w now batch (platforms_or_default cfg platforms_arg) of
             Inl e \<Rightarrow> (Inl e, db)
           | Inr (subs, calls) \<Rightarrow>
               (case mark_scheduled id_map (platforms_or_default cfg platforms_arg) 0 db []
                       subs of
                  (sch, dbm) \<Rightarrow> (Inr sch, dbm)))"
  by (simp add: run_scheduling_def Let_def)

text \<open>
  C9. For every call of \<open>run_scheduling\<close>: every row that is not both \<open>generated\<close> and
  with a final video path at the start is left as it was; every id the call returns as
  scheduled, and every status update the call makes, is on a row that was \<open>generated\<close>
  with a final video path at the start, and the update writes \<open>scheduled\<close>.
\<close>

theorem run_scheduling_only_generated:
  assumes "run_scheduling cfg w now db queue_ids platforms_arg = (res, db')"
  shows "(\<forall>qid. \<not> eligible db qid \<longrightarrow> rows db' qid = rows db qid) \<and>
         (\<forall>ids. res = Inr ids \<longrightarrow> (\<forall>qid \<in> set ids. eligible db qid)) \<and>
         (\<exists>entries. status_log db' = status_log db @ entries \<and>
            (\<forall>e \<in> set entries. eligible db (fst e) \<and> snd (snd e) = ''scheduled''))"
proof -
  obtain batch id_map where bb: "build_batch db [] Map.empty queue_ids = (batch, id_map)"
    by (cases "build_batch db [] Map.empty queue_ids")
  have el: "\<forall>q \<in> ran id_map. eligible db q"
    using build_batch_eligible[OF bb] by simp
  let ?pl = "platforms_or_default cfg platforms_arg"
  note unf = run_scheduling_unfold[OF bb, of cfg w now platforms_arg]
  show ?thesis
  proof (cases "BLOTATO_API_KEY cfg = [] \<or> batch = []")
    case True
    with assms unf have "db' = db" "res = Inr []"
      by auto
    then show ?thesis by simp
  next
    case False
    show ?thesis
    proof (cases "schedule_batch cfg w now batch ?pl")
      case (Inl e)
      with False assms unf have "db' = db" "res = Inl e"
        by auto
      then show ?thesis by simp
    next
      case (Inr r)
      obtain subs calls where r: "r = (subs, calls)" by (cases r)
      obtain sch dbm where ms: "mark_scheduled id_map ?pl 0 db [] subs = (sch, dbm)"
        by (cases "mark_scheduled id_map ?pl 0 db [] subs")
      from False assms unf Inr r ms have eq: "db' = dbm" "res = Inr sch"
        by auto
      from mark_scheduled_effect[OF ms] el show ?thesis
        unfolding eq by (auto simp: subset_iff)
    qed
  qed
qed

text \<open>
  On \<open>demo_db\<close>, asked to schedule the ids 1 and 2, the call schedules row 1, which is
  generated, and leaves the pending row 2 alone.
\<close>

theorem run_scheduling_only_generated_witness:
  "eligible demo_db 1 \<and> \<not> eligible demo_db 2 \<and>
   fst (run_scheduling demo_cfg demo_sched_world demo_now demo_db [1, 2] None) = Inr [1] \<and>
   rows (snd (run_scheduling demo_cfg demo_sched_world demo_now demo_db [1, 2] None)) 2 =
     rows demo_db 2 \<and>
   map_option status
     (rows (snd (run_scheduling demo_cfg demo_sched_world demo_now demo_db [1, 2] None)) 1) =
     Some ''scheduled''"
proof -
  let ?r = "run_scheduling demo_cfg demo_sched_world demo_now demo_db [1, 2] None"
  have h: "?r = (fst ?r, snd ?r)" by simp
  have e1: "eligible demo_db 1" by (simp add: eligible_def demo_db_def demo_row_def truthy_def)
  have e2: "\<not> eligible demo_db 2" by (simp add: eligible_def demo_db_def demo_row_def)
  from run_scheduling_only_generated[OF h] e2
  have keep: "rows (snd ?r) 2 = rows demo_db 2" by blast
  have res: "fst ?r = Inr [1]" by (simp add: db_evals)
  have st: "map_option status (rows (snd ?r) 1) = Some ''scheduled''" by (simp add: db_evals)
  from e1 e2 res keep st show ?thesis by blast
qed

subsection \<open>The generation phase\<close>

lemma two_updates:
  assumes "rows db qid = Some c"
  shows "rows (update_content_status (update_content_status db qid s1 []) qid s2 kw) =
           (rows db)(qid \<mapsto> set_fields kw (c\<lparr>status := s2\<rparr>)) \<and>
         status_log (update_content_status (update_content_status db qid s1 []) qid s2 kw) =
           status_log db @ [(qid, status c, s1), (qid, s1, s2)]"
  using assms by (simp add: update_content_status_def)

lemma truthy_Some_the: "truthy v \<Longrightarrow> truthy (Some (the v))"
  by (cases v) (simp_all add: truthy_def)

text \<open>What one round of the generation loop does to the row and to the log.\<close>

lemma generate_item_effect:
  assumes "rows db qid = Some content"
    and "generate_item cfg w k db qid content = (ok, db', made)"
  shows "\<exists>st c'. (st = ''generated'' \<or> st = ''failed'') \<and>
           status_log db' =
             status_log db @ [(qid, status content, ''generating''), (qid, ''generating'', st)] \<and>
           rows db' = (rows db)(qid \<mapsto> c') \<and> status c' = st \<and>
           (st = ''generated'' \<longrightarrow> truthy (final_video_path c')) \<and>
           (st = ''failed'' \<longrightarrow> final_video_path c' = final_video_path content)"
proof -
  note u = two_updates[OF assms(1), of "''generating''"]
  from assms(2) consider
      (failed) kw where "db' = update_content_status
                    (update_content_status db qid ''generating'' []) qid ''failed'' kw"
        "kw = [] \<or> (\<exists>v. kw = [(Video_path, v)]) \<or> (\<exists>v a. kw = [(Video_path, v), (Audio_path, a)])"
    | (generated) v a f where "db' = update_content_status
                    (update_content_status db qid ''generating'' []) qid ''generated''
                    [(Video_path, v), (Audio_path, a), (Final_video_path, the f)]" "truthy f"
    by (auto simp: generate_item_def Let_def split: sum.splits prod.splits if_splits)
  then show ?thesis
  proof cases
    case failed
    let ?c = "set_fields kw (content\<lparr>status := ''failed''\<rparr>)"
    have "final_video_path ?c = final_video_path content"
      using failed(2) by auto
    then show ?thesis
      using u[of "''failed''" kw] failed(1)
      by (intro exI[of _ "''failed''"] exI[of _ ?c]) simp
  next
    case generated
    let ?kw = "[(Video_path, v), (Audio_path, a), (Final_video_path, the f)]"
    let ?c = "set_fields ?kw (content\<lparr>status := ''generated''\<rparr>)"
    have "truthy (final_video_path ?c)"
      using truthy_Some_the[OF generated(2)] by simp
    then show ?thesis
      using u[of "''generated''" ?kw] generated(1)
      by (intro exI[of _ "''generated''"] exI[of _ ?c]) simp
  qed
qed

text \<open>
  C8. With no Soul ID configured, \<open>run_generation\<close> returns no generated id, leaves the
  database as it is and makes no call of \<open>generate_video\<close>, whatever the list of ids.
\<close>

theorem run_generation_without_soul_id:
  assumes "SOUL_ID cfg = []"
  shows "run_generation cfg w db queue_ids = ([], db, [])"
  using assms by (simp add: run_generation_def)

text \<open>
  On \<open>demo_db\<close> and the pending row 2: without Soul ID nothing happens; with one, the
  same call asks for a video once and generates the row.
\<close>

theorem run_generation_without_soul_id_witness:
  "SOUL_ID (demo_cfg\<lparr>SOUL_ID := []\<rparr>) = [] \<and>
   run_generation (demo_cfg\<lparr>SOUL_ID := []\<rparr>) (demo_gen_world True) demo_db [2] =
     ([], demo_db, []) \<and>
   fst (run_generation demo_cfg (demo_gen_world True) demo_db [2]) = [2] \<and>
   snd (snd (run_generation demo_cfg (demo_gen_world True) demo_db [2])) =
     [\<lparr>vc_prompt = ''hook'', vc_soul_id = ''soul''\<rparr>]"
proof -
  have h: "SOUL_ID (demo_cfg\<lparr>SOUL_ID := []\<rparr>) = []" by simp
  have e: "fst (run_generation demo_cfg (demo_gen_world True) demo_db [2]) = [2] \<and>
           snd (snd (run_generation demo_cfg (demo_gen_world True) demo_db [2])) =
             [\<lparr>vc_prompt = ''hook'', vc_soul_id = ''soul''\<rparr>]"
    by (simp add: db_evals)
  from run_generation_without_soul_id[OF h, of "demo_gen_world True" demo_db "[2]"] h e
  show ?thesis by blast
qed

subsection \<open>Status transitions\<close>

lemma run_generation_loop_log:
  "run_generation_loop cfg w k db gen calls qids = (gen', db', calls') \<Longrightarrow>
   \<exists>entries. status_log db' = status_log db @ entries \<and>
     (\<forall>e \<in> set entries. generation_step e) \<and>
     (pending_ids db qids \<longrightarrow> (\<forall>e \<in> set entries. chain_step e))"
proof (induction qids arbitrary: k db gen calls)
  case Nil
  then show ?case by simp
next
  case (Cons qid rest)
  show ?case
  proof (cases "rows db qid")
    case None
    with Cons.prems
    have run: "run_generation_loop cfg w (Suc k) db gen calls rest = (gen', db', calls')"
      by (simp add: get_content_def)
    have "pending_ids db (qid # rest) \<Longrightarrow> pending_ids db rest"
      by (simp add: pending_ids_def)
    with Cons.IH[OF run] show ?thesis by blast
  next
    case (Some content)
    obtain ok db1 made where gi: "generate_item cfg w k db qid content = (ok, db1, made)"
      by (cases "generate_item cfg w k db qid content")
    with Some Cons.prems
    have run: "run_generation_loop cfg w (Suc k) db1
                 (if ok then gen @ [qid] else gen) (calls @ made) rest = (gen', db', calls')"
      by (simp add: get_content_def)
    from generate_item_effect[OF Some gi] obtain st c' where
      st: "st = ''generated'' \<or> st = ''failed''"
      and log1: "status_log db1 =
             status_log db @ [(qid, status content, ''generating''), (qid, ''generating'', st)]"
      and rows1: "rows db1 = (rows db)(qid \<mapsto> c')"
      by blast
    from Cons.IH[OF run] obtain es where
      es: "status_log db' = status_log db1 @ es" "\<forall>e \<in> set es. generation_step e"
        "pending_ids db1 rest \<longrightarrow> (\<forall>e \<in> set es. chain_step e)"
      by blast
    let ?new = "[(qid, status content, ''generating''), (qid, ''generating'', st)] @ es"
    have a: "status_log db' = status_log db @ ?new" using es(1) log1 by simp
    have b: "\<forall>e \<in> set ?new. generation_step e"
      using es(2) st by (auto simp: generation_step_def)
    have c: "pending_ids db (qid # rest) \<longrightarrow> (\<forall>e \<in> set ?new. chain_step e)"
    proof
      assume p: "pending_ids db (qid # rest)"
      then have "status content = ''pending''" using Some by (simp add: pending_ids_def)
      moreover have "pending_ids db1 rest"
        using p rows1 by (auto simp: pending_ids_def)
      ultimately show "\<forall>e \<in> set ?new. chain_step e"
        using es(3) st by (auto simp: chain_step_def)
    qed
    from a b c show ?thesis by blast
  qed
qed

lemma mark_scheduled_from:
  "mark_scheduled id_map pl i db sch subs = (sch', db') \<Longrightarrow>
   \<forall>q \<in> ran id_map. \<forall>c. rows db q = Some c \<longrightarrow>
      status c = ''generated'' \<or> status c = ''scheduled'' \<Longrightarrow>
   \<exists>entries. status_log db' = status_log db @ entries \<and>
      (\<forall>e \<in> set entries. scheduling_step e)"
proof (induction subs arbitrary: i db sch)
  case Nil
  then show ?case by simp
next
  case (Cons sub rest)
  show ?case
  proof (cases "id_map i")
    case None
    with Cons.prems have "mark_scheduled id_map pl (Suc i) db sch rest = (sch', db')" by simp
    from Cons.IH[OF this Cons.prems(2)] show ?thesis .
  next
    case (Some qid)
    show ?thesis
    proof (cases "qid \<noteq> 0 \<and> sub \<noteq> []")
      case False
      with Some Cons.prems have "mark_scheduled id_map pl (Suc i) db sch rest = (sch', db')"
        by auto
      from Cons.IH[OF this Cons.prems(2)] show ?thesis .
    next
      case True
      let ?db1 = "update_content_status db qid ''scheduled'' [(Post_submission_id, sub)]"
      let ?db2 = "log_posts ?db1 qid sub pl"
      have qr: "qid \<in> ran id_map" using Some by (auto simp: ran_def)
      from True Some Cons.prems
      have run: "mark_scheduled id_map pl (Suc i) ?db2 (sch @ [qid]) rest = (sch', db')"
        by simp
      have inv2: "\<forall>q \<in> ran id_map. \<forall>c. rows ?db2 q = Some c \<longrightarrow>
                    status c = ''generated'' \<or> status c = ''scheduled''"
      proof (intro ballI allI impI)
        fix q c assume q: "q \<in> ran id_map" and c: "rows ?db2 q = Some c"
        show "status c = ''generated'' \<or> status c = ''scheduled''"
        proof (cases "q = qid")
          case True
          then show ?thesis
            using c by (cases "rows db qid") (auto simp: update_content_status_def)
        next
          case False
          then show ?thesis using c q Cons.prems(2) by (simp add: rows_update_other)
        qed
      qed
      have log2: "\<exists>es. status_log ?db2 = status_log db @ es \<and>
                   (\<forall>e \<in> set es. scheduling_step e)"
      proof (cases "rows db qid")
        case None
        then show ?thesis by (simp add: rows_update_missing)
      next
        case (Some c)
        then show ?thesis using qr Cons.prems(2)
          by (auto simp: status_log_update scheduling_step_def)
      qed
      then obtain es where es: "status_log ?db2 = status_log db @ es"
          "\<forall>e \<in> set es. scheduling_step e"
        by blast
      from Cons.IH[OF run inv2] obtain es' where es': "status_log db' = status_log ?db2 @ es'"
          "\<forall>e \<in> set es'. scheduling_step e"
        by blast
      have "status_log db' = status_log db @ (es @ es')" using es es' by simp
      moreover have "\<forall>e \<in> set (es @ es'). scheduling_step e"
        using es es' by auto
      ultimately show ?thesis by blast
    qed
  qed
qed

lemma run_scheduling_log:
  assumes "run_scheduling cfg w now db queue_ids platforms_arg = (res, db')"
  shows "\<exists>entries. status_log db' = status_log db @ entries \<and>
           (\<forall>e \<in> set entries. scheduling_step e)"
proof -
  obtain batch id_map where bb: "build_batch db [] Map.empty queue_ids = (batch, id_map)"
    by (cases "build_batch db [] Map.empty queue_ids")
  have el: "\<forall>q \<in> ran id_map. eligible db q"
    using build_batch_eligible[OF bb] by simp
  then have st: "\<forall>q \<in> ran id_map. \<forall>c. rows db q = Some c \<longrightarrow>
      status c = ''generated'' \<or> status c = ''scheduled''"
    by (auto simp: eligible_def)
  let ?pl = "platforms_or_default cfg platforms_arg"
  note unf = run_scheduling_unfold[OF bb, of cfg w now platforms_arg]
  show ?thesis
  proof (cases "BLOTATO_API_KEY cfg = [] \<or> batch = []")
    case True
    with assms unf have "db' = db" by auto
    then show ?thesis by simp
  next
    case False
    show ?thesis
    proof (cases "schedule_batch cfg w now batch ?pl")
      case (Inl e)
      with False assms unf have "db' = db" by auto
      then show ?thesis by simp
    next
      case (Inr r)
      obtain subs calls where r: "r = (subs, calls)" by (cases r)
      obtain sch dbm where ms: "mark_scheduled id_map ?pl 0 db [] subs = (sch, dbm)"
        by (cases "mark_scheduled id_map ?pl 0 db [] subs")
      from False assms unf Inr r ms have eq: "db' = dbm" by auto
      from mark_scheduled_from[OF ms st] show ?thesis unfolding eq .
    qed
  qed
qed

text \<open>
  C4, as the code has it. Every status update of \<open>run_generation\<close> either sets
  \<open>generating\<close>, whatever the status was, or goes from \<open>generating\<close> to \<open>generated\<close> or
  \<open>failed\<close>; when the ids are pending and without repetition, every update is a step of
  the chain pending, generating, generated or failed. Every status update of
  \<open>run_scheduling\<close> sets \<open>scheduled\<close> on a row that is \<open>generated\<close>, or \<open>scheduled\<close> already
  by the same call.
\<close>

theorem status_transitions:
  "(\<forall>gen db' calls. run_generation cfg w db gen_ids = (gen, db', calls) \<longrightarrow>
      (\<exists>entries. status_log db' = status_log db @ entries \<and>
         (\<forall>e \<in> set entries. generation_step e) \<and>
         (pending_ids db gen_ids \<longrightarrow> (\<forall>e \<in> set entries. chain_step e)))) \<and>
   (\<forall>res db'. run_scheduling scfg sw now db sched_ids platforms_arg = (res, db') \<longrightarrow>
      (\<exists>entries. status_log db' = status_log db @ entries \<and>
         (\<forall>e \<in> set entries. scheduling_step e)))"
proof (intro conjI allI impI)
  fix gen db' calls
  assume r: "run_generation cfg w db gen_ids = (gen, db', calls)"
  show "\<exists>entries. status_log db' = status_log db @ entries \<and>
         (\<forall>e \<in> set entries. generation_step e) \<and>
         (pending_ids db gen_ids \<longrightarrow> (\<forall>e \<in> set entries. chain_step e))"
  proof (cases "SOUL_ID cfg = []")
    case True
    with r have "db' = db" by (simp add: run_generation_def)
    then show ?thesis by simp
  next
    case False
    with r have "run_generation_loop cfg w 0 db [] [] gen_ids = (gen, db', calls)"
      by (simp add: run_generation_def)
    from run_generation_loop_log[OF this] show ?thesis .
  qed
next
  fix res db'
  assume "run_scheduling scfg sw now db sched_ids platforms_arg = (res, db')"
  from run_scheduling_log[OF this]
  show "\<exists>entries. status_log db' = status_log db @ entries \<and>
         (\<forall>e \<in> set entries. scheduling_step e)" .
qed

text \<open>
  On \<open>demo_db\<close>, generating the pending row 2 logs pending to generating to generated, and
  scheduling the generated row 1 logs generated to scheduled.
\<close>

theorem status_transitions_witness:
  "pending_ids demo_db [2] \<and>
   status_log (fst (snd (run_generation demo_cfg (demo_gen_world True) demo_db [2]))) =
     status_log demo_db @ [(2, ''pending'', ''generating''), (2, ''generating'', ''generated'')] \<and>
   chain_step (2, ''pending'', ''generating'') \<and> chain_step (2, ''generating'', ''generated'') \<and>
   status_log (snd (run_scheduling demo_cfg demo_sched_world demo_now demo_db [1, 2] None)) =
     status_log demo_db @ [(1, ''generated'', ''scheduled'')] \<and>
   scheduling_step (1, ''generated'', ''scheduled'')"
proof -
  let ?g = "run_generation demo_cfg (demo_gen_world True) demo_db [2]"
  let ?s = "run_scheduling demo_cfg demo_sched_world demo_now demo_db [1, 2] None"
  have p: "pending_ids demo_db [2]"
    by (simp add: pending_ids_def demo_db_def demo_row_def)
  have g: "status_log (fst (snd ?g)) =
     status_log demo_db @ [(2, ''pending'', ''generating''), (2, ''generating'', ''generated'')]"
    by (simp add: db_evals)
  have s: "status_log (snd ?s) = status_log demo_db @ [(1, ''generated'', ''scheduled'')]"
    by (simp add: db_evals)
  have hg: "?g = (fst ?g, fst (snd ?g), snd (snd ?g))" by simp
  have hs: "?s = (fst ?s, snd ?s)" by simp
  note t = status_transitions
         [of demo_cfg "demo_gen_world True" demo_db "[2]" demo_cfg demo_sched_world demo_now
             "[1, 2]" None]
  from t hg obtain es where
    es: "status_log (fst (snd ?g)) = status_log demo_db @ es"
      "pending_ids demo_db [2] \<longrightarrow> (\<forall>e \<in> set es. chain_step e)"
    by blast
  from es(1) g have "es = [(2, ''pending'', ''generating''), (2, ''generating'', ''generated'')]"
    by simp
  with es(2) p have c: "chain_step (2, ''pending'', ''generating'') \<and>
                        chain_step (2, ''generating'', ''generated'')"
    by simp
  from t hs obtain es' where
    es': "status_log (snd ?s) = status_log demo_db @ es'" "\<forall>e \<in> set es'. scheduling_step e"
    by blast
  from es'(1) s have "es' = [(1, ''generated'', ''scheduled'')]" by simp
  with es'(2) have d: "scheduling_step (1, ''generated'', ''scheduled'')" by simp
  from p g s c d show ?thesis by blast
qed

text \<open>
  C4, as the specification words it, fails: an item whose generation failed and is
  generated again goes from \<open>failed\<close> to \<open>generating\<close>, which is neither a step of the
  chain nor the step from \<open>generated\<close> to \<open>scheduled\<close>.
\<close>

theorem failed_item_returns_to_generating:
  "status_log
     (run_phases [demo_discover, demo_generate False, demo_generate True] empty_database) =
     [(1, ''pending'', ''generating''), (1, ''generating'', ''failed''),
      (1, ''failed'', ''generating''), (1, ''generating'', ''generated'')] \<and>
   \<not> claimed_step (1, ''failed'', ''generating'')"
  by (simp add: db_evals claimed_step_def chain_step_def)

subsection \<open>The final video path\<close>

lemma last_id_update [simp]: "last_id (update_content_status db qid st kw) = last_id db"
  by (simp add: update_content_status_def split: option.splits)

lemma last_id_log_posts [simp]: "last_id (log_posts db qid sub pl) = last_id db"
  by (induction pl arbitrary: db) (simp_all add: log_post_def)

lemma generate_item_last_id:
  "generate_item cfg w k db qid content = (ok, db', made) \<Longrightarrow> last_id db' = last_id db"
  by (auto simp: generate_item_def Let_def split: sum.splits prod.splits if_splits)

lemma reached_append:
  "status_log db' = status_log db @ es \<Longrightarrow>
   reached db' q =
     (reached db q \<or>
      (\<exists>e \<in> set es. fst e = q \<and> (snd (snd e) = ''generated'' \<or> snd (snd e) = ''scheduled'')))"
  by (auto simp: reached_def)

lemma well_logged_same:
  "well_logged db \<Longrightarrow> rows db' = rows db \<Longrightarrow> last_id db' = last_id db \<Longrightarrow>
   status_log db' = status_log db \<Longrightarrow> well_logged db'"
  by (simp add: well_logged_def reached_def)

text \<open>
  Updates of one row keep \<open>well_logged\<close> when they leave the row with a final video
  path exactly if it had reached \<open>generated\<close> or \<open>scheduled\<close> before or does so now.
\<close>

lemma well_logged_step:
  assumes wl: "well_logged db" and row: "rows db qid = Some c"
    and rows': "rows db' = (rows db)(qid \<mapsto> c')" and lid: "last_id db' = last_id db"
    and log': "status_log db' = status_log db @ es" and own: "\<forall>e \<in> set es. fst e = qid"
    and fin: "truthy (final_video_path c') =
                (reached db qid \<or>
                 (\<exists>e \<in> set es. snd (snd e) = ''generated'' \<or> snd (snd e) = ''scheduled''))"
  shows "well_logged db'"
  unfolding well_logged_def
proof (intro conjI allI impI ballI)
  fix q r assume r: "rows db' q = Some r"
  show "q \<le> last_id db'"
  proof (cases "q = qid")
    case True
    then show ?thesis using wl row lid by (simp add: well_logged_def)
  next
    case False
    then have "rows db q = Some r" using r rows' by simp
    then show ?thesis using wl lid by (simp add: well_logged_def)
  qed
  show "truthy (final_video_path r) = reached db' q"
  proof (cases "q = qid")
    case True
    then have "r = c'" using r rows' by simp
    then show ?thesis using True fin own reached_append[OF log', of qid] by auto
  next
    case False
    then have "rows db q = Some r" using r rows' by simp
    then have "truthy (final_video_path r) = reached db q"
      using wl by (simp add: well_logged_def)
    moreover have "reached db' q = reached db q"
      using False own reached_append[OF log', of q] by auto
    ultimately show ?thesis by simp
  qed
next
  fix e assume "e \<in> set (status_log db')"
  then have "e \<in> set (status_log db) \<or> e \<in> set es" using log' by simp
  then show "rows db' (fst e) \<noteq> None"
  proof
    assume "e \<in> set (status_log db)"
    then have "rows db (fst e) \<noteq> None" using wl by (simp add: well_logged_def)
    then show ?thesis using rows' by simp
  next
    assume "e \<in> set es"
    then have "fst e = qid" using own by simp
    then show ?thesis using rows' by simp
  qed
qed

lemma well_logged_empty: "well_logged empty_database"
  by (simp add: well_logged_def empty_database_def)

lemma well_logged_add_content:
  assumes "well_logged db" and "add_content db src tp scr cap = (rid, db')"
  shows "well_logged db'"
proof -
  let ?n = "last_id db + 1"
  have none: "rows db ?n = None"
  proof (cases "rows db ?n")
    case (Some c)
    with assms(1) have "?n \<le> last_id db" unfolding well_logged_def by blast
    then show ?thesis by simp
  qed simp
  have nolog: "\<not> reached db ?n"
  proof
    assume "reached db ?n"
    then obtain e where "e \<in> set (status_log db)" "fst e = ?n" by (auto simp: reached_def)
    then have "rows db ?n \<noteq> None" using assms(1) by (auto simp: well_logged_def)
    then show False using none by simp
  qed
  have rows': "rows db' = (rows db)(?n \<mapsto>
                 \<lparr>source_url = src, topic = tp, script = scr, caption = cap,
                  status = ''pending'', video_path = None, audio_path = None,
                  final_video_path = None, post_submission_id = None\<rparr>)"
    and lid: "last_id db' = ?n" and log': "status_log db' = status_log db"
    using assms(2) by (auto simp: add_content_def Let_def)
  show ?thesis
    unfolding well_logged_def
  proof (intro conjI allI impI ballI)
    fix q r assume r: "rows db' q = Some r"
    show "q \<le> last_id db'"
    proof (cases "q = ?n")
      case True
      then show ?thesis using lid by simp
    next
      case False
      then have "rows db q = Some r" using r rows' by simp
      then have "q \<le> last_id db" using assms(1) by (simp add: well_logged_def)
      then show ?thesis using lid by simp
    qed
    have same: "reached db' q = reached db q" using log' by (simp add: reached_def)
    show "truthy (final_video_path r) = reached db' q"
    proof (cases "q = ?n")
      case True
      then have "final_video_path r = None" using r rows' by auto
      then show ?thesis using True nolog same by (simp add: truthy_def)
    next
      case False
      then have "rows db q = Some r" using r rows' by simp
      then show ?thesis using assms(1) same by (simp add: well_logged_def)
    qed
  next
    fix e assume "e \<in> set (status_log db')"
    then have "rows db (fst e) \<noteq> None" using log' assms(1) by (simp add: well_logged_def)
    then show "rows db' (fst e) \<noteq> None" using rows' by simp
  qed
qed

lemma well_logged_queue_items:
  "well_logged db \<Longrightarrow> queue_items db ids items = (ids', db') \<Longrightarrow> well_logged db'"
proof (induction items arbitrary: db ids)
  case Nil
  then show ?case by simp
next
  case (Cons item rest)
  obtain rid db1 where
    ac: "add_content db (a_source_url item) (a_topic item) (a_script item) (a_caption item) =
           (rid, db1)"
    by (cases "add_content db (a_source_url item) (a_topic item) (a_script item)
                 (a_caption item)")
  with Cons.prems(2) have "queue_items db1 (ids @ [rid]) rest = (ids', db')" by simp
  from Cons.IH[OF well_logged_add_content[OF Cons.prems(1) ac] this] show ?case .
qed

lemma well_logged_run_discovery:
  assumes "well_logged db"
  shows "well_logged (snd (run_discovery truediv cfg w db cnt))"
proof -
  have "snd (run_discovery truediv cfg w db cnt) = db \<or>
        (\<exists>items. snd (run_discovery truediv cfg w db cnt) = snd (queue_items db [] items))"
    by (auto simp: run_discovery_def Let_def)
  then show ?thesis
  proof
    assume "snd (run_discovery truediv cfg w db cnt) = db"
    then show ?thesis using assms by simp
  next
    assume "\<exists>items. snd (run_discovery truediv cfg w db cnt) = snd (queue_items db [] items)"
    then obtain items where
      eq: "snd (run_discovery truediv cfg w db cnt) = snd (queue_items db [] items)"
      by blast
    obtain ids' db' where q: "queue_items db [] items = (ids', db')"
      by (cases "queue_items db [] items")
    from well_logged_queue_items[OF assms q] show ?thesis by (simp add: eq q)
  qed
qed

lemma well_logged_generate_item:
  assumes wl: "well_logged db" and row: "rows db qid = Some content"
    and gi: "generate_item cfg w k db qid content = (ok, db', made)"
  shows "well_logged db'"
proof -
  from generate_item_effect[OF row gi] obtain st c' where
    st: "st = ''generated'' \<or> st = ''failed''"
    and log': "status_log db' =
           status_log db @ [(qid, status content, ''generating''), (qid, ''generating'', st)]"
    and rows': "rows db' = (rows db)(qid \<mapsto> c')"
    and g: "st = ''generated'' \<longrightarrow> truthy (final_video_path c')"
    and f: "st = ''failed'' \<longrightarrow> final_video_path c' = final_video_path content"
    by blast
  let ?es = "[(qid, status content, ''generating''), (qid, ''generating'', st)]"
  have before: "truthy (final_video_path content) = reached db qid"
    using wl row by (simp add: well_logged_def)
  have fin: "truthy (final_video_path c') =
               (reached db qid \<or>
                (\<exists>e \<in> set ?es. snd (snd e) = ''generated'' \<or> snd (snd e) = ''scheduled''))"
  proof (cases "st = ''generated''")
    case True
    then have "truthy (final_video_path c')" using g by simp
    moreover have "\<exists>e \<in> set ?es. snd (snd e) = ''generated'' \<or> snd (snd e) = ''scheduled''"
      using True by simp
    ultimately show ?thesis by blast
  next
    case False
    then have stf: "st = ''failed''" using st by simp
    then have "final_video_path c' = final_video_path content" using f by simp
    then have "truthy (final_video_path c') = reached db qid" using before by simp
    moreover have "\<not> (\<exists>e \<in> set ?es. snd (snd e) = ''generated'' \<or>
                     snd (snd e) = ''scheduled'')"
      using stf by simp
    ultimately show ?thesis by blast
  qed
  have own: "\<forall>e \<in> set ?es. fst e = qid" by simp
  show ?thesis
    by (rule well_logged_step[OF wl row rows' generate_item_last_id[OF gi] log' own fin])
qed

lemma well_logged_generation_loop:
  "run_generation_loop cfg w k db gen calls qids = (gen', db', calls') \<Longrightarrow>
   well_logged db \<Longrightarrow> well_logged db'"
proof (induction qids arbitrary: k db gen calls)
  case Nil
  then show ?case by simp
next
  case (Cons qid rest)
  show ?case
  proof (cases "rows db qid")
    case None
    with Cons.prems(1)
    have "run_generation_loop cfg w (Suc k) db gen calls rest = (gen', db', calls')"
      by (simp add: get_content_def)
    from Cons.IH[OF this Cons.prems(2)] show ?thesis .
  next
    case (Some content)
    obtain ok db1 made where gi: "generate_item cfg w k db qid content = (ok, db1, made)"
      by (cases "generate_item cfg w k db qid content")
    with Some Cons.prems(1)
    have run: "run_generation_loop cfg w (Suc k) db1
                 (if ok then gen @ [qid] else gen) (calls @ made) rest = (gen', db', calls')"
      by (simp add: get_content_def)
    from Cons.IH[OF run well_logged_generate_item[OF Cons.prems(2) Some gi]] show ?thesis .
  qed
qed

lemma well_logged_run_generation:
  assumes "well_logged db"
  shows "well_logged (fst (snd (run_generation cfg w db queue_ids)))"
proof (cases "SOUL_ID cfg = []")
  case True
  then show ?thesis using assms by (simp add: run_generation_def)
next
  case False
  obtain gen db' calls where
    r: "run_generation_loop cfg w 0 db [] [] queue_ids = (gen, db', calls)"
    by (cases "run_generation_loop cfg w 0 db [] [] queue_ids") auto
  from well_logged_generation_loop[OF r assms] show ?thesis
    using False r by (simp add: run_generation_def)
qed

lemma well_logged_mark_scheduled:
  "mark_scheduled id_map pl i db sch subs = (sch', db') \<Longrightarrow>
   well_logged db \<Longrightarrow>
   \<forall>q \<in> ran id_map. \<forall>c. rows db q = Some c \<longrightarrow> truthy (final_video_path c) \<Longrightarrow>
   well_logged db'"
proof (induction subs arbitrary: i db sch)
  case Nil
  then show ?case by simp
next
  case (Cons sub rest)
  show ?case
  proof (cases "id_map i")
    case None
    with Cons.prems(1) have "mark_scheduled id_map pl (Suc i) db sch rest = (sch', db')"
      by simp
    from Cons.IH[OF this Cons.prems(2,3)] show ?thesis .
  next
    case (Some qid)
    show ?thesis
    proof (cases "qid \<noteq> 0 \<and> sub \<noteq> []")
      case False
      with Some Cons.prems(1)
      have "mark_scheduled id_map pl (Suc i) db sch rest = (sch', db')" by auto
      from Cons.IH[OF this Cons.prems(2,3)] show ?thesis .
    next
      case True
      let ?db1 = "update_content_status db qid ''scheduled'' [(Post_submission_id, sub)]"
      let ?db2 = "log_posts ?db1 qid sub pl"
      have qr: "qid \<in> ran id_map" using Some by (auto simp: ran_def)
      from True Some Cons.prems(1)
      have run: "mark_scheduled id_map pl (Suc i) ?db2 (sch @ [qid]) rest = (sch', db')"
        by simp
      have fin2: "\<forall>q \<in> ran id_map. \<forall>c. rows ?db2 q = Some c \<longrightarrow>
                    truthy (final_video_path c)"
      proof (intro ballI allI impI)
        fix q c assume q: "q \<in> ran id_map" and c: "rows ?db2 q = Some c"
        show "truthy (final_video_path c)"
        proof (cases "q = qid")
          case True
          then show ?thesis
            using c q Cons.prems(3)
            by (cases "rows db qid") (auto simp: update_content_status_def)
        next
          case False
          then show ?thesis using c q Cons.prems(3) by (simp add: rows_update_other)
        qed
      qed
      have wl2: "well_logged ?db2"
      proof (cases "rows db qid")
        case None
        then have "?db1 = db" by (rule rows_update_missing)
        then show ?thesis
          using well_logged_same[OF Cons.prems(2), of ?db2] by simp
      next
        case (Some c)
        let ?c' = "set_fields [(Post_submission_id, sub)] (c\<lparr>status := ''scheduled''\<rparr>)"
        have t: "truthy (final_video_path c)" using Cons.prems(3) qr Some by blast
        have rows2: "rows ?db2 = (rows db)(qid \<mapsto> ?c')"
          using Some by (simp add: update_content_status_def)
        have log2: "status_log ?db2 = status_log db @ [(qid, status c, ''scheduled'')]"
          using Some by (simp add: status_log_update)
        have fin: "truthy (final_video_path ?c') =
                     (reached db qid \<or>
                      (\<exists>e \<in> set [(qid, status c, ''scheduled'')].
                          snd (snd e) = ''generated'' \<or> snd (snd e) = ''scheduled''))"
          using t by simp
        show ?thesis
          by (rule well_logged_step[OF Cons.prems(2) Some rows2 _ log2 _ fin]) simp_all
      qed
      from Cons.IH[OF run wl2 fin2] show ?thesis .
    qed
  qed
qed

lemma well_logged_run_scheduling:
  assumes "well_logged db"
  shows "well_logged (snd (run_scheduling cfg w now db queue_ids platforms_arg))"
proof -
  obtain batch id_map where bb: "build_batch db [] Map.empty queue_ids = (batch, id_map)"
    by (cases "build_batch db [] Map.empty queue_ids")
  have "\<forall>q \<in> ran id_map. eligible db q"
    using build_batch_eligible[OF bb] by simp
  then have fin: "\<forall>q \<in> ran id_map. \<forall>c. rows db q = Some c \<longrightarrow>
                    truthy (final_video_path c)"
    by (auto simp: eligible_def)
  let ?pl = "platforms_or_default cfg platforms_arg"
  note unf = run_scheduling_unfold[OF bb, of cfg w now platforms_arg]
  show ?thesis
  proof (cases "BLOTATO_API_KEY cfg = [] \<or> batch = []")
    case True
    with unf have "snd (run_scheduling cfg w now db queue_ids platforms_arg) = db" by auto
    then show ?thesis using assms by simp
  next
    case False
    show ?thesis
    proof (cases "schedule_batch cfg w now batch ?pl")
      case (Inl e)
      with False unf have "snd (run_scheduling cfg w now db queue_ids platforms_arg) = db"
        by auto
      then show ?thesis using assms by simp
    next
      case (Inr r)
      obtain subs calls where r: "r = (subs, calls)" by (cases r)
      obtain sch dbm where ms: "mark_scheduled id_map ?pl 0 db [] subs = (sch, dbm)"
        by (cases "mark_scheduled id_map ?pl 0 db [] subs")
      from False unf Inr r ms
      have eq: "snd (run_scheduling cfg w now db queue_ids platforms_arg) = dbm" by auto
      from well_logged_mark_scheduled[OF ms assms fin] show ?thesis unfolding eq .
    qed
  qed
qed

lemma well_logged_run_phases:
  "well_logged db \<Longrightarrow> well_logged (run_phases phases db)"
proof (induction phases arbitrary: db)
  case Nil
  then show ?case by simp
next
  case (Cons p ps)
  have "well_logged (run_phase p db)"
  proof (cases p)
    case (Run_discovery truediv cfg w cnt)
    then show ?thesis using well_logged_run_discovery[OF Cons.prems] by simp
  next
    case (Run_generation cfg w queue_ids)
    then show ?thesis using well_logged_run_generation[OF Cons.prems] by simp
  next
    case (Run_scheduling cfg w now queue_ids platforms_arg)
    then show ?thesis using well_logged_run_scheduling[OF Cons.prems] by simp
  qed
  from Cons.IH[OF this] show ?case by simp
qed

text \<open>
  C3. After every sequence of \<open>run_discovery\<close>, \<open>run_generation\<close> and \<open>run_scheduling\<close>
  on the empty table, with any arguments and any answers of the outside world, every
  row has its final video path set (not null and not empty) if and only if its status has
  reached \<open>generated\<close> or \<open>scheduled\<close>: some update has set one of the two on it.
\<close>

theorem final_path_iff_reached:
  assumes "rows (run_phases phases empty_database) qid = Some c"
  shows "truthy (final_video_path c) = reached (run_phases phases empty_database) qid"
  using well_logged_run_phases[OF well_logged_empty, of phases] assms
  by (simp add: well_logged_def)

text \<open>
  Two runs on the item that discovery queues. Generated and then generated again with a
  failing video service, it is \<open>failed\<close>, has reached \<open>generated\<close> and has its final video
  path. Generated with a failing video service only, it is \<open>failed\<close>, has not reached
  \<open>generated\<close> and has no final video path.
\<close>

theorem final_path_iff_reached_witness:
  "rows (run_phases [demo_discover, demo_generate True, demo_generate False] empty_database) 1 =
     Some ((demo_row ''failed'' (Some ''f.mp4''))
             \<lparr>video_path := Some ''v.mp4'', audio_path := Some ''a.mp3''\<rparr>) \<and>
   truthy (final_video_path ((demo_row ''failed'' (Some ''f.mp4''))
             \<lparr>video_path := Some ''v.mp4'', audio_path := Some ''a.mp3''\<rparr>)) \<and>
   reached (run_phases [demo_discover, demo_generate True, demo_generate False]
              empty_database) 1 \<and>
   rows (run_phases [demo_discover, demo_generate False] empty_database) 1 =
     Some (demo_row ''failed'' None) \<and>
   \<not> truthy (final_video_path (demo_row ''failed'' None)) \<and>
   \<not> reached (run_phases [demo_discover, demo_generate False] empty_database) 1"
proof -
  let ?p = "[demo_discover, demo_generate True, demo_generate False]"
  let ?c = "(demo_row ''failed'' (Some ''f.mp4''))
              \<lparr>video_path := Some ''v.mp4'', audio_path := Some ''a.mp3''\<rparr>"
  let ?q = "[demo_discover, demo_generate False]"
  have r1: "rows (run_phases ?p empty_database) 1 = Some ?c"
    by (simp add: db_evals)
  have r2: "rows (run_phases ?q empty_database) 1 = Some (demo_row ''failed'' None)"
    by (simp add: db_evals)
  have t1: "truthy (final_video_path ?c)" by (simp add: demo_row_def truthy_def)
  have t2: "\<not> truthy (final_video_path (demo_row ''failed'' None))"
    by (simp add: demo_row_def truthy_def)
  from final_path_iff_reached[OF r1] t1 have a: "reached (run_phases ?p empty_database) 1"
    by simp
  from final_path_iff_reached[OF r2] t2 have b: "\<not> reached (run_phases ?q empty_database) 1"
    by simp
  from r1 r2 t1 t2 a b show ?thesis by blast
qed

subsection \<open>Composition\<close>










lemma verify_file_eq: "fs' p = fs p \<Longrightarrow> verify_file fs' p n = verify_file fs p n"
  by (simp add: verify_file_def)



lemma truthy_None [simp]: "\<not> truthy None"
  by (simp add: truthy_def)





subsection \<open>Missing credentials and caught errors\<close>




end
